theory Spec2Isabelle
  imports Main
begin

section \<open>Data of the language service\<close>

text \<open>
  The coordinator of \<^verbatim>\<open>languageService.ts\<close> (class \<^verbatim>\<open>LanguageServiceImpl\<close>) owns one piece
  of state, the table \<^verbatim>\<open>pendingValidationRequests\<close>, and otherwise calls collaborators: the
  document service, the schema service, the capability engines, the protocol connection,
  the analytics sink and the timers of the runtime. The collaborators are not part of the
  file. What they answer is a parameter of the model (a \<open>world\<close>), and every call the
  coordinator makes on them is written, in program order, to a trace of calls.
\<close>

type_synonym uri = string

text \<open>
  JavaScript errors, each with its \<^verbatim>\<open>message\<close>. \<^verbatim>\<open>CfnLintFailedToExecuteError\<close> is the class
  tested by \<^verbatim>\<open>instanceof\<close> in \<^verbatim>\<open>validate\<close>; \<^verbatim>\<open>TypeError\<close> is what reading a property of
  \<^verbatim>\<open>undefined\<close> raises.
\<close>

datatype error =
    CfnLintFailedToExecuteError string
  | TypeError string
  | Error string

fun message :: "error \<Rightarrow> string" where
  "message (CfnLintFailedToExecuteError m) = m"
| "message (TypeError m) = m"
| "message (Error m) = m"

fun isCfnLintFailedToExecuteError :: "error \<Rightarrow> bool" where
  "isCfnLintFailedToExecuteError (CfnLintFailedToExecuteError m) = True"
| "isCfnLintFailedToExecuteError (TypeError m) = False"
| "isCfnLintFailedToExecuteError (Error m) = False"

text \<open>The message of the \<^verbatim>\<open>TypeError\<close> of \<^verbatim>\<open>document.uri\<close> on an undefined document
  (the wording is the runtime's).\<close>

definition undefined_uri_message :: string where
  "undefined_uri_message = ''Cannot read property uri of undefined''"

record TextDocument =
  doc_uri :: uri
  getText :: string

record YAMLDocument =
  yaml_documentType :: string

record CompletionData =
  data_documentType :: "string option"

record CompletionItem =
  item_label :: string
  item_data :: "CompletionData option"

record ReferenceParams =
  rp_uri :: uri
  rp_line :: nat
  rp_character :: nat

datatype Location = Location uri nat nat

datatype ResponseError = ResponseError int string

text \<open>
  The calls the coordinator makes, by the collaborator that receives them. \<open>Validate\<close>
  marks the invocation of the private method \<^verbatim>\<open>validate\<close> by a timer callback;
  \<open>SetTimeout h u d\<close> and \<open>ClearTimeout h\<close> are the calls on the timers of the runtime,
  \<open>h\<close> being the handle.
\<close>

datatype call =
    GetTextDocument uri
  | GetYamlDocument uri
  | GetChildrenUris uri
  | ClearRelations uri
  | DocumentServiceClear uri
  | ClearPartialSchema uri
  | ValidationDoValidation uri
  | GetReferences uri
  | GetDefinition uri
  | CompleterDoResolve CompletionItem
  | SendDiagnostics uri "string list"
  | SendNotification string
  | SendAnalytics string "(string \<times> string option) list"
  | SendException error
  | SetTimeout nat uri nat
  | ClearTimeout nat
  | Validate uri

text \<open>
  What the collaborators answer. An awaited call answers \<open>Inr v\<close> when its promise is
  fulfilled with \<open>v\<close> and \<open>Inl e\<close> when it is rejected with \<open>e\<close>; a synchronous call
  answers \<open>Inl e\<close> when it throws. \<^verbatim>\<open>getTextDocument\<close> may be fulfilled with \<^verbatim>\<open>undefined\<close>
  (\<open>None\<close>), and so may \<^verbatim>\<open>getChildrenUris\<close> return. The capability engines are
  synchronous functions of the document and its parsed representation. The sinks
  (\<^verbatim>\<open>sendDiagnostics\<close>, \<^verbatim>\<open>sendNotification\<close>, \<^verbatim>\<open>sendAnalytics\<close>, \<^verbatim>\<open>sendException\<close>), the calls
  that clear (\<^verbatim>\<open>clear\<close>, \<^verbatim>\<open>clearRelations\<close>, \<^verbatim>\<open>clearPartialSchema\<close>) and the timers of the
  runtime do not throw. The callbacks \<^verbatim>\<open>externalImportsCallbacks\<close>, which the document
  service calls on its own, are not part of the model.
\<close>

record world =
  getTextDocument :: "uri \<Rightarrow> error + TextDocument option"
  getYamlDocument :: "uri \<Rightarrow> error + YAMLDocument"
  getChildrenUris :: "uri \<Rightarrow> uri list option"
  validation_doValidation :: "TextDocument \<Rightarrow> YAMLDocument \<Rightarrow> error + unit"
  getReferences :: "ReferenceParams \<Rightarrow> TextDocument \<Rightarrow> YAMLDocument \<Rightarrow> error + Location list"
  getDefinition :: "ReferenceParams \<Rightarrow> TextDocument option \<Rightarrow> YAMLDocument \<Rightarrow> error + Location list"
  completer_doResolve :: "CompletionItem \<Rightarrow> error + CompletionItem"

section \<open>The request dispatcher\<close>

text \<open>
  An asynchronous method is a pair: how its promise settles (\<open>Inl e\<close>: rejected with
  \<open>e\<close>, which is what reaches the protocol layer) and the calls it made.
\<close>

text \<open>\<^verbatim>\<open>doResolve\<close>: the analytics event is sent, then the delegate's promise is returned
  as it is. \<^verbatim>\<open>completionItem.data && completionItem.data.documentType\<close> is \<^verbatim>\<open>undefined\<close> when
  there is no \<^verbatim>\<open>data\<close>.\<close>

definition doResolve :: "world \<Rightarrow> CompletionItem \<Rightarrow> (error + CompletionItem) \<times> call list" where
  "doResolve w completionItem =
     (completer_doResolve w completionItem,
      [SendAnalytics ''resolveCompletion''
         [(''label'', Some (item_label completionItem)),
          (''documentType'',
             (case item_data completionItem of
                None \<Rightarrow> None
              | Some d \<Rightarrow> data_documentType d))],
       CompleterDoResolve completionItem])"

text \<open>The \<^verbatim>\<open>catch\<close> block shared by \<^verbatim>\<open>findDefinitions\<close> and \<^verbatim>\<open>findReferences\<close>.\<close>

definition catch_ResponseError :: "error \<Rightarrow> (error + (Location list + ResponseError)) \<times> call list" where
  "catch_ResponseError err = (Inr (Inr (ResponseError 1 (message err))), [SendException err])"

text \<open>\<^verbatim>\<open>findReferences\<close>: the document is awaited before the \<^verbatim>\<open>try\<close> block is entered;
  \<^verbatim>\<open>document.uri\<close>, the parsed representation and the engine are inside it.\<close>

definition findReferences ::
  "world \<Rightarrow> ReferenceParams \<Rightarrow> (error + (Location list + ResponseError)) \<times> call list" where
  "findReferences w referenceParams =
     (case getTextDocument w (rp_uri referenceParams) of
        Inl err \<Rightarrow> (Inl err, [GetTextDocument (rp_uri referenceParams)])
      | Inr None \<Rightarrow>
          (let (r, calls) = catch_ResponseError (TypeError undefined_uri_message)
           in (r, GetTextDocument (rp_uri referenceParams) # calls))
      | Inr (Some document) \<Rightarrow>
          (case getYamlDocument w (doc_uri document) of
             Inl err \<Rightarrow>
               (let (r, calls) = catch_ResponseError err
                in (r, [GetTextDocument (rp_uri referenceParams),
                        GetYamlDocument (doc_uri document)] @ calls))
           | Inr yamlDocument \<Rightarrow>
               (case getReferences w referenceParams document yamlDocument of
                  Inl err \<Rightarrow>
                    (let (r, calls) = catch_ResponseError err
                     in (r, [GetTextDocument (rp_uri referenceParams),
                             GetYamlDocument (doc_uri document),
                             GetReferences (doc_uri document)] @ calls))
                | Inr locations \<Rightarrow>
                    (Inr (Inl locations),
                     [GetTextDocument (rp_uri referenceParams),
                      GetYamlDocument (doc_uri document),
                      GetReferences (doc_uri document)]))))"

text \<open>\<^verbatim>\<open>findDefinitions\<close>, the sibling of \<^verbatim>\<open>findReferences\<close>: here both awaits are inside
  the \<^verbatim>\<open>try\<close> block, and the parsed representation is asked for under the URI of the
  request.\<close>

definition findDefinitions ::
  "world \<Rightarrow> ReferenceParams \<Rightarrow> (error + (Location list + ResponseError)) \<times> call list" where
  "findDefinitions w documentPosition =
     (case getTextDocument w (rp_uri documentPosition) of
        Inl err \<Rightarrow>
          (let (r, calls) = catch_ResponseError err
           in (r, GetTextDocument (rp_uri documentPosition) # calls))
      | Inr document \<Rightarrow>
          (case getYamlDocument w (rp_uri documentPosition) of
             Inl err \<Rightarrow>
               (let (r, calls) = catch_ResponseError err
                in (r, [GetTextDocument (rp_uri documentPosition),
                        GetYamlDocument (rp_uri documentPosition)] @ calls))
           | Inr yamlDocument \<Rightarrow>
               (case getDefinition w documentPosition document yamlDocument of
                  Inl err \<Rightarrow>
                    (let (r, calls) = catch_ResponseError err
                     in (r, [GetTextDocument (rp_uri documentPosition),
                             GetYamlDocument (rp_uri documentPosition),
                             GetDefinition (rp_uri documentPosition)] @ calls))
                | Inr locations \<Rightarrow>
                    (Inr (Inl locations),
                     [GetTextDocument (rp_uri documentPosition),
                      GetYamlDocument (rp_uri documentPosition),
                      GetDefinition (rp_uri documentPosition)]))))"

section \<open>The validation routine\<close>

text \<open>The \<^verbatim>\<open>catch\<close> block of \<^verbatim>\<open>validate\<close>: the notification for the one class of error,
  nothing for any other; the error is not thrown again.\<close>

definition validate_catch :: "error \<Rightarrow> call list" where
  "validate_catch err =
     (if isCfnLintFailedToExecuteError err
      then [SendNotification ''custom/cfn-lint-installation-error'']
      else [])"

text \<open>
  \<^verbatim>\<open>validate\<close>: the document is awaited outside the \<^verbatim>\<open>try\<close> block, so its rejection
  rejects the routine; an undefined document and an empty text return early; the parsed
  representation, the analytics event and the engine are inside the \<^verbatim>\<open>try\<close> block. The
  routine reads no state of the coordinator, so the awaits are collapsed: a run is the
  list of its calls and the way its promise settles. Diagnostics that the engine
  publishes by itself are the engine's calls, not the routine's, and are not listed.
\<close>

definition validate :: "world \<Rightarrow> uri \<Rightarrow> (error + unit) \<times> call list" where
  "validate w u =
     (case getTextDocument w u of
        Inl err \<Rightarrow> (Inl err, [GetTextDocument u])
      | Inr None \<Rightarrow> (Inr (), [GetTextDocument u])
      | Inr (Some document) \<Rightarrow>
          if length (getText document) = 0
          then (Inr (), [GetTextDocument u, SendDiagnostics (doc_uri document) []])
          else
            (case getYamlDocument w (doc_uri document) of
               Inl err \<Rightarrow>
                 (Inr (),
                  [GetTextDocument u, GetYamlDocument (doc_uri document)] @ validate_catch err)
             | Inr yamlDocument \<Rightarrow>
                 (case validation_doValidation w document yamlDocument of
                    Inl err \<Rightarrow>
                      (Inr (),
                       [GetTextDocument u, GetYamlDocument (doc_uri document),
                        SendAnalytics ''validateDocument''
                          [(''documentType'', Some (yaml_documentType yamlDocument))],
                        ValidationDoValidation (doc_uri document)] @ validate_catch err)
                  | Inr _ \<Rightarrow>
                      (Inr (),
                       [GetTextDocument u, GetYamlDocument (doc_uri document),
                        SendAnalytics ''validateDocument''
                          [(''documentType'', Some (yaml_documentType yamlDocument))],
                        ValidationDoValidation (doc_uri document)]))))"

section \<open>The validation scheduler\<close>

text \<open>
  A timer of the runtime that is armed: its handle, the time it is due, and what its
  callback closes over, the URI and the promise (\<^verbatim>\<open>resolve\<close>, \<^verbatim>\<open>reject\<close>) of the call of
  \<^verbatim>\<open>doValidation\<close> that armed it.
\<close>

record timer =
  handle :: nat
  due :: nat
  t_uri :: uri
  t_promise :: nat

text \<open>
  Modelled from the spec: the pool of \<^verbatim>\<open>es6-promise-pool\<close> is not among the sources. The
  spec (4.3) has a cursor over the ordered collection, at most K validations in flight,
  and the next URI pulled whenever one settles, success or failure. \<open>tracked\<close> are the
  promises the pool has pulled and that have not settled.
\<close>

record pool =
  uris :: "uri list"
  currentIndex :: nat
  concurrency :: nat
  tracked :: "nat list"

text \<open>
  The state: the clock (ms), the table \<^verbatim>\<open>pendingValidationRequests\<close>, the armed timers in
  the order they were armed, the promises of \<^verbatim>\<open>doValidation\<close> that have settled and how,
  the pools that were started, and the trace of calls.
\<close>

record state =
  now :: nat
  pendingValidationRequests :: "uri \<rightharpoonup> nat"
  timers :: "timer list"
  next_handle :: nat
  settled :: "nat \<rightharpoonup> (error + unit)"
  next_promise :: nat
  pools :: "pool list"
  trace :: "call list"

definition init :: state where
  "init = \<lparr>now = 0, pendingValidationRequests = Map.empty, timers = [], next_handle = 0,
           settled = Map.empty, next_promise = 0, pools = [], trace = []\<rparr>"

definition VALIDATION_DELAY_MS :: nat where
  "VALIDATION_DELAY_MS = 200"

definition emit :: "call list \<Rightarrow> state \<Rightarrow> state" where
  "emit calls s = s\<lparr>trace := trace s @ calls\<rparr>"

text \<open>\<^verbatim>\<open>clearTimeout\<close> of the runtime: the timer is disarmed.\<close>

definition clearTimeout :: "nat \<Rightarrow> state \<Rightarrow> state" where
  "clearTimeout h s = emit [ClearTimeout h] (s\<lparr>timers := filter (\<lambda>t. handle t \<noteq> h) (timers s)\<rparr>)"

text \<open>\<^verbatim>\<open>setTimeout\<close> of the runtime: a fresh handle, due after the delay. The callback
  settles promise \<open>p\<close>.\<close>

definition setTimeout :: "uri \<Rightarrow> nat \<Rightarrow> nat \<Rightarrow> state \<Rightarrow> nat \<times> state" where
  "setTimeout u p delay s =
     (next_handle s,
      emit [SetTimeout (next_handle s) u delay]
        (s\<lparr>timers := timers s @ [\<lparr>handle = next_handle s, due = now s + delay, t_uri = u, t_promise = p\<rparr>],
           next_handle := next_handle s + 1\<rparr>))"

definition cleanPendingValidation :: "uri \<Rightarrow> state \<Rightarrow> state" where
  "cleanPendingValidation u s =
     (case pendingValidationRequests s u of
        None \<Rightarrow> s
      | Some request \<Rightarrow>
          (let s1 = clearTimeout request s
           in s1\<lparr>pendingValidationRequests := (pendingValidationRequests s1)(u := None)\<rparr>))"

text \<open>\<^verbatim>\<open>doValidation\<close>: the pending request of the URI is cleaned, a new promise is made
  and a timer is armed whose handle is stored under the URI. The result is the promise.\<close>

definition doValidation :: "uri \<Rightarrow> state \<Rightarrow> nat \<times> state" where
  "doValidation u s =
     (let s1 = cleanPendingValidation u s;
          p = next_promise s1;
          s2 = s1\<lparr>next_promise := p + 1\<rparr>;
          (h, s3) = setTimeout u p VALIDATION_DELAY_MS s2
      in (p, s3\<lparr>pendingValidationRequests := (pendingValidationRequests s3)(u \<mapsto> h)\<rparr>))"

text \<open>
  Modelled from the spec: \<^verbatim>\<open>promiseRejectionHandler\<close> (utils/errorHandler) is not among the
  sources. The spec (7) has a failure of a fire-and-forget handler caught and reported to
  the exception sink, never thrown again: the wrapped promise is fulfilled.
\<close>

definition promiseRejectionHandler :: "error + unit \<Rightarrow> (error + unit) \<times> call list" where
  "promiseRejectionHandler r =
     (case r of Inl err \<Rightarrow> (Inr (), [SendException err]) | Inr v \<Rightarrow> (Inr v, []))"

text \<open>\<^verbatim>\<open>.catch(sendException)\<close> of \<^verbatim>\<open>nextPromise\<close>.\<close>

definition catch_sendException :: "error + unit \<Rightarrow> (error + unit) \<times> call list" where
  "catch_sendException r =
     (case r of Inl err \<Rightarrow> (Inr (), [SendException err]) | Inr v \<Rightarrow> (Inr v, []))"

text \<open>
  Modelled from the spec: the loop of the pool (see \<open>pool\<close>). While fewer than
  \<open>concurrency\<close> promises are tracked, the producer \<^verbatim>\<open>nextPromise\<close> is asked; it answers
  \<^verbatim>\<open>null\<close> when the cursor is at the end, and otherwise calls \<^verbatim>\<open>doValidation\<close> on the URI
  under the cursor and advances the cursor.
\<close>

function proceed :: "pool \<Rightarrow> state \<Rightarrow> pool \<times> state" where
  "proceed pl s =
     (if length (tracked pl) < concurrency pl \<and> currentIndex pl < length (uris pl)
      then (let (p, s') = doValidation (uris pl ! currentIndex pl) s
            in proceed (pl\<lparr>currentIndex := currentIndex pl + 1, tracked := tracked pl @ [p]\<rparr>) s')
      else (pl, s))"
  by pat_completeness auto
termination
  by (relation "measure (\<lambda>(pl, s). length (uris pl) - currentIndex pl)") auto

declare proceed.simps [simp del]

text \<open>\<^verbatim>\<open>triggerValidationForWorkspaceFiles\<close>, on the keys of the files: a pool of
  concurrency 3 over them is started.\<close>

definition triggerValidationForWorkspaceFiles :: "uri list \<Rightarrow> state \<Rightarrow> state" where
  "triggerValidationForWorkspaceFiles us s =
     (let (pl, s') = proceed \<lparr>uris = us, currentIndex = 0, concurrency = 3, tracked = []\<rparr> s
      in s'\<lparr>pools := pools s' @ [pl]\<rparr>)"

text \<open>
  Modelled from the spec: what the pool does when a promise it tracks settles (see
  \<open>pool\<close>). A pooled promise is the promise of \<^verbatim>\<open>doValidation\<close> with
  \<^verbatim>\<open>.catch(sendException)\<close>: the pool that tracks it frees the slot and proceeds, whether the
  promise was fulfilled or rejected.
\<close>

definition pool_settled :: "nat \<Rightarrow> error + unit \<Rightarrow> pool \<Rightarrow> state \<Rightarrow> pool \<times> state" where
  "pool_settled p r pl s =
     (if p \<in> set (tracked pl)
      then (let (r', calls) = catch_sendException r
            in proceed (pl\<lparr>tracked := removeAll p (tracked pl)\<rparr>) (emit calls s))
      else (pl, s))"

text \<open>Modelled from the spec: the pools hear of the settled promise one after the other, in
  the order they were started (only the pool that pulled the promise tracks it).\<close>

fun settle_pools :: "nat \<Rightarrow> error + unit \<Rightarrow> pool list \<Rightarrow> state \<Rightarrow> pool list \<times> state" where
  "settle_pools p r [] s = ([], s)"
| "settle_pools p r (pl # pls) s =
     (let (pl', s') = pool_settled p r pl s;
          (pls', s'') = settle_pools p r pls s'
      in (pl' # pls', s''))"

text \<open>The promise \<open>p\<close> of a call of \<^verbatim>\<open>doValidation\<close> settles as \<open>r\<close>: the wrapper
  \<^verbatim>\<open>promiseRejectionHandler\<close> sees it first, then the pools.\<close>

definition on_settle :: "nat \<Rightarrow> error + unit \<Rightarrow> state \<Rightarrow> state" where
  "on_settle p r s =
     (let (r', calls) = promiseRejectionHandler r;
          s1 = emit calls (s\<lparr>settled := (settled s)(p \<mapsto> r)\<rparr>);
          (pls, s2) = settle_pools p r' (pools s1) s1
      in s2\<lparr>pools := pls\<rparr>)"

text \<open>The callback given to \<^verbatim>\<open>setTimeout\<close> in \<^verbatim>\<open>doValidation\<close>: the entry of the URI is
  deleted, \<^verbatim>\<open>validate\<close> runs, and its result settles the promise.\<close>

definition timer_callback :: "world \<Rightarrow> timer \<Rightarrow> state \<Rightarrow> state" where
  "timer_callback w t s =
     (let s1 = s\<lparr>pendingValidationRequests := (pendingValidationRequests s)(t_uri t := None)\<rparr>;
          (r, calls) = validate w (t_uri t)
      in on_settle (t_promise t) r (emit (Validate (t_uri t) # calls) s1))"

text \<open>The runtime runs a timer that is due, if it is still armed, and disarms it.\<close>

definition fire :: "world \<Rightarrow> timer \<Rightarrow> state \<Rightarrow> state" where
  "fire w t s =
     (if t \<in> set (timers s)
      then timer_callback w t (s\<lparr>timers := filter (\<lambda>x. handle x \<noteq> handle t) (timers s)\<rparr>)
      else s)"

text \<open>
  Time passes: the clock advances by \<open>d\<close> ms, then the timers that are due run in the
  order they were armed. A timer armed by one of the callbacks is due 200 ms later, so it
  is never among them.
\<close>

definition elapse :: "world \<Rightarrow> nat \<Rightarrow> state \<Rightarrow> state" where
  "elapse w d s =
     (let s1 = s\<lparr>now := now s + d\<rparr>
      in fold (fire w) (filter (\<lambda>t. due t \<le> now s1) (timers s1)) s1)"

section \<open>Lifecycle and the document operations\<close>

text \<open>\<^verbatim>\<open>children.forEach(childUri => this.schemaService.clearPartialSchema(childUri))\<close>.\<close>

definition clearPartialSchemas :: "uri list \<Rightarrow> call list" where
  "clearPartialSchemas children = map ClearPartialSchema children"

text \<open>\<^verbatim>\<open>onFileChanged\<close>: \<^verbatim>\<open>children && children.length\<close> holds for a non-empty list.\<close>

definition onFileChanged :: "world \<Rightarrow> uri \<Rightarrow> state \<Rightarrow> nat \<times> state" where
  "onFileChanged w u s =
     (let s1 = emit [GetChildrenUris u] s;
          s2 = (case getChildrenUris w u of
                  None \<Rightarrow> s1
                | Some children \<Rightarrow>
                    if length children \<noteq> 0
                    then emit [ClearRelations u] (emit (clearPartialSchemas children) s1)
                    else s1)
      in doValidation u s2)"

text \<open>\<^verbatim>\<open>clearDocument\<close>: the children are read first.\<close>

definition clearDocument :: "world \<Rightarrow> uri \<Rightarrow> state \<Rightarrow> state" where
  "clearDocument w u s =
     (let s1 = emit [GetChildrenUris u] s;
          s2 = cleanPendingValidation u s1;
          s3 = emit [DocumentServiceClear u] s2;
          s4 = emit [SendDiagnostics u []] s3
      in (case getChildrenUris w u of
            None \<Rightarrow> s4
          | Some children \<Rightarrow>
              if length children > 0 then emit (clearPartialSchemas children) s4 else s4))"

text \<open>
  What happens to the service: the lifecycle callbacks of the document service, the two
  public operations that change state, and the passing of time.
\<close>

datatype event =
    OnWorkplaceFilesInitialized "uri list"
  | OnWorkplaceFilesChanged "uri list"
  | OnFileCreated uri
  | OnFileDeleted uri
  | OnFileChanged uri
  | OnFileOpened uri
  | OnFileClosed uri
  | DoValidation uri
  | ClearDocument uri
  | Elapse nat

fun step :: "world \<Rightarrow> event \<Rightarrow> state \<Rightarrow> state" where
  "step w (OnWorkplaceFilesInitialized us) s = triggerValidationForWorkspaceFiles us s"
| "step w (OnWorkplaceFilesChanged us) s = triggerValidationForWorkspaceFiles us s"
| "step w (OnFileCreated u) s = snd (doValidation u s)"
| "step w (OnFileDeleted u) s = clearDocument w u s"
| "step w (OnFileChanged u) s = snd (onFileChanged w u s)"
| "step w (OnFileOpened u) s = snd (doValidation u s)"
| "step w (OnFileClosed u) s = s"
| "step w (DoValidation u) s = snd (doValidation u s)"
| "step w (ClearDocument u) s = clearDocument w u s"
| "step w (Elapse d) s = elapse w d s"

text \<open>A run: each event with the answers of the collaborators at its time.\<close>

fun run :: "(world \<times> event) list \<Rightarrow> state \<Rightarrow> state" where
  "run [] s = s"
| "run ((w, e) # es) s = run es (step w e s)"

section \<open>Observing traces; example worlds\<close>

fun is_SendAnalytics :: "call \<Rightarrow> bool" where
  "is_SendAnalytics (SendAnalytics a attrs) = True"
| "is_SendAnalytics c = False"

fun is_CompleterDoResolve :: "call \<Rightarrow> bool" where
  "is_CompleterDoResolve (CompleterDoResolve i) = True"
| "is_CompleterDoResolve c = False"

fun is_SendDiagnostics :: "call \<Rightarrow> bool" where
  "is_SendDiagnostics (SendDiagnostics u ds) = True"
| "is_SendDiagnostics c = False"

fun is_SendNotification :: "call \<Rightarrow> bool" where
  "is_SendNotification (SendNotification n) = True"
| "is_SendNotification c = False"

text \<open>A world in which every document has the text \<^verbatim>\<open>a: 1\<close>, nothing fails, and
  \<^verbatim>\<open>p.yaml\<close> has two recorded children.\<close>

definition example_world :: world where
  "example_world =
     \<lparr>getTextDocument = (\<lambda>u. Inr (Some \<lparr>doc_uri = u, getText = ''a: 1''\<rparr>)),
      getYamlDocument = (\<lambda>u. Inr \<lparr>yaml_documentType = ''SAM''\<rparr>),
      getChildrenUris = (\<lambda>u. if u = ''p.yaml'' then Some [''c1.yaml'', ''c2.yaml''] else None),
      validation_doValidation = (\<lambda>d y. Inr ()),
      getReferences = (\<lambda>p d y. Inr []),
      getDefinition = (\<lambda>p d y. Inr []),
      completer_doResolve = (\<lambda>i. Inr i)\<rparr>"

text \<open>The same world with a document service whose \<^verbatim>\<open>getTextDocument\<close> is rejected.\<close>

definition unreadable_world :: world where
  "unreadable_world = example_world\<lparr>getTextDocument := (\<lambda>u. Inl (Error ''ENOENT''))\<rparr>"

text \<open>The same world with a validation engine that cannot run its tool.\<close>

definition cfn_lint_missing_world :: world where
  "cfn_lint_missing_world =
     example_world\<lparr>validation_doValidation :=
       (\<lambda>d y. Inl (CfnLintFailedToExecuteError ''cfn-lint not found''))\<rparr>"

text \<open>The same world with a completer whose \<^verbatim>\<open>doResolve\<close> is rejected.\<close>

definition resolve_fails_world :: world where
  "resolve_fails_world = example_world\<lparr>completer_doResolve := (\<lambda>i. Inl (Error ''boom''))\<rparr>"

definition example_item :: CompletionItem where
  "example_item =
     \<lparr>item_label = ''AWS::S3::Bucket'', item_data = Some \<lparr>data_documentType = Some ''SAM''\<rparr>\<rparr>"

definition example_params :: ReferenceParams where
  "example_params = \<lparr>rp_uri = ''a.yaml'', rp_line = 0, rp_character = 0\<rparr>"

section \<open>Invariants\<close>

text \<open>
  The invariant of the scheduler: the armed timers have distinct handles and distinct
  promises, both below the counters; the table holds, under the URI of each armed timer,
  the handle of that timer, and holds nothing else; the promise of an armed timer has not
  settled; no timer is due later than 200 ms from now; only promises that were made have
  settled.
\<close>

definition sched_inv :: "state \<Rightarrow> bool" where
  "sched_inv s \<longleftrightarrow>
     distinct (map handle (timers s)) \<and>
     distinct (map t_promise (timers s)) \<and>
     (\<forall>t \<in> set (timers s).
        handle t < next_handle s \<and> t_promise t < next_promise s \<and>
        pendingValidationRequests s (t_uri t) = Some (handle t) \<and>
        settled s (t_promise t) = None \<and> due t \<le> now s + VALIDATION_DELAY_MS) \<and>
     (\<forall>u h. pendingValidationRequests s u = Some h \<longrightarrow>
        (\<exists>t \<in> set (timers s). handle t = h \<and> t_uri t = u)) \<and>
     (\<forall>p r. settled s p = Some r \<longrightarrow> p < next_promise s)"

text \<open>The invariant of a pool: the concurrency is 3, at most 3 promises are tracked, the
  cursor is within the list, and every tracked promise was made and has not settled.\<close>

definition pool_inv :: "state \<Rightarrow> pool \<Rightarrow> bool" where
  "pool_inv s pl \<longleftrightarrow>
     concurrency pl = 3 \<and> length (tracked pl) \<le> 3 \<and> currentIndex pl \<le> length (uris pl) \<and>
     (\<forall>p \<in> set (tracked pl). p < next_promise s \<and> settled s p = None)"

text \<open>The invariant of the service.\<close>

definition service_inv :: "state \<Rightarrow> bool" where
  "service_inv s \<longleftrightarrow> sched_inv s \<and> (\<forall>pl \<in> set (pools s). pool_inv s pl)"

text \<open>The URIs a pool has not pulled yet.\<close>

definition ahead :: "pool \<Rightarrow> uri set" where
  "ahead pl = set (drop (currentIndex pl) (uris pl))"

text \<open>The invariant of a pool at the moment promise \<open>p\<close> has settled and the pool has not
  heard of it yet.\<close>

definition pool_pre :: "nat \<Rightarrow> state \<Rightarrow> pool \<Rightarrow> bool" where
  "pool_pre p s pl \<longleftrightarrow>
     concurrency pl = 3 \<and> length (tracked pl) \<le> 3 \<and> currentIndex pl \<le> length (uris pl) \<and>
     (\<forall>q \<in> set (tracked pl). q < next_promise s \<and> (q \<noteq> p \<longrightarrow> settled s q = None))"

text \<open>The state in which the pools hear that the promise of timer \<open>t\<close> has settled:
  the timer is disarmed, the entry of its URI is deleted, \<^verbatim>\<open>validate\<close> has run and the wrapper has
  seen the result.\<close>

definition fired :: "world \<Rightarrow> timer \<Rightarrow> state \<Rightarrow> state" where
  "fired w t s =
     s\<lparr>timers := filter (\<lambda>x. handle x \<noteq> handle t) (timers s),
       pendingValidationRequests := (pendingValidationRequests s)(t_uri t := None),
       settled := (settled s)(t_promise t \<mapsto> fst (validate w (t_uri t))),
       trace := trace s @ Validate (t_uri t) # snd (validate w (t_uri t))
                  @ snd (promiseRejectionHandler (fst (validate w (t_uri t))))\<rparr>"

text \<open>
  The calls on the timers of the runtime.
\<close>

fun is_timer_call :: "call \<Rightarrow> bool" where
  "is_timer_call (SetTimeout h u d) = True"
| "is_timer_call (ClearTimeout h) = True"
| "is_timer_call c = False"

fun is_SendException :: "call \<Rightarrow> bool" where
  "is_SendException (SendException e) = True"
| "is_SendException c = False"

text \<open>
  A promise that was made, has not settled, and that no armed timer will settle.
\<close>

definition dead :: "nat \<Rightarrow> state \<Rightarrow> bool" where
  "dead p s \<longleftrightarrow> p < next_promise s \<and> settled s p = None \<and> (\<forall>t \<in> set (timers s). t_promise t \<noteq> p)"

text \<open>
  Between two states nothing was called but the timers of the runtime.
\<close>

definition only_timer_calls :: "state \<Rightarrow> state \<Rightarrow> bool" where
  "only_timer_calls s s' \<longleftrightarrow> (\<exists>cs. trace s' = trace s @ cs \<and> (\<forall>c \<in> set cs. is_timer_call c))"

text \<open>
  The state after one call of \<^verbatim>\<open>doValidation\<close> on \<^verbatim>\<open>a.yaml\<close> in a fresh service, and the
  timer it armed.
\<close>

definition armed_once :: state where
  "armed_once = snd (doValidation ''a.yaml'' init)"

definition timer0 :: timer where
  "timer0 = \<lparr>handle = 0, due = 200, t_uri = ''a.yaml'', t_promise = 0\<rparr>"

text \<open>
  The same world with documents whose text is empty.
\<close>

definition empty_document_world :: world where
  "empty_document_world =
     example_world\<lparr>getTextDocument := (\<lambda>u. Inr (Some \<lparr>doc_uri = u, getText = []\<rparr>))\<rparr>"

text \<open>
  The same world with a document service that has no document.
\<close>

definition no_document_world :: world where
  "no_document_world = example_world\<lparr>getTextDocument := (\<lambda>u. Inr None)\<rparr>"

text \<open>
  The events that cancel the pending request of a URI: the calls of \<^verbatim>\<open>doValidation\<close> and
  \<^verbatim>\<open>clearDocument\<close> on it, and the lifecycle callbacks that make them.
\<close>

definition cancels :: "uri \<Rightarrow> event set" where
  "cancels u = {DoValidation u, ClearDocument u, OnFileCreated u, OnFileOpened u,
                OnFileChanged u, OnFileDeleted u}"

text \<open>
  No pool has the URI ahead of its cursor: no batch runner will call \<^verbatim>\<open>doValidation\<close> on it.
\<close>

definition quiet :: "uri \<Rightarrow> state \<Rightarrow> bool" where
  "quiet u s \<longleftrightarrow> (\<forall>pl \<in> set (pools s). u \<notin> ahead pl)"

text \<open>
  How many times \<^verbatim>\<open>validate\<close> was invoked on the URI.
\<close>

definition validations :: "uri \<Rightarrow> state \<Rightarrow> nat" where
  "validations u s = count_list (trace s) (Validate u)"

text \<open>
  The invariant of the scheduler, with the armed timers of the URI and the number of its
  validations given.
\<close>

definition calm :: "uri \<Rightarrow> timer list \<Rightarrow> nat \<Rightarrow> state \<Rightarrow> bool" where
  "calm u X n s \<longleftrightarrow>
     sched_inv s \<and> filter (\<lambda>t. t_uri t = u) (timers s) = X \<and> validations u s = n"

text \<open>
  A pool is saturated: its tracked promises are distinct, and while URIs are left it tracks
  as many promises as its concurrency allows.
\<close>

definition pool_full :: "pool \<Rightarrow> bool" where
  "pool_full pl \<longleftrightarrow>
     distinct (tracked pl) \<and>
     (currentIndex pl < length (uris pl) \<longrightarrow> length (tracked pl) = concurrency pl)"

text \<open>
  Two states agree on the clock, the table, the armed timers, the counters and the pools:
  on everything but how promises have settled and what was called.
\<close>

definition core_eq :: "state \<Rightarrow> state \<Rightarrow> bool" where
  "core_eq s s' \<longleftrightarrow>
     now s = now s' \<and> pendingValidationRequests s = pendingValidationRequests s' \<and>
     timers s = timers s' \<and> next_handle s = next_handle s' \<and>
     next_promise s = next_promise s' \<and> pools s = pools s'"

text \<open>
  The invariant of the service, with saturated pools.
\<close>

definition full_inv :: "state \<Rightarrow> bool" where
  "full_inv s \<longleftrightarrow> service_inv s \<and> (\<forall>pl \<in> set (pools s). pool_full pl)"

fun is_Validate :: "call \<Rightarrow> bool" where
  "is_Validate (Validate u) = True"
| "is_Validate c = False"

text \<open>
  What reaches the exception sink when each of the URIs is validated once in world \<open>w\<close>.
\<close>

definition reports :: "world \<Rightarrow> uri list \<Rightarrow> call list" where
  "reports w us =
     concat (map (\<lambda>u. case fst (validate w u) of Inl e \<Rightarrow> [SendException e] | Inr v \<Rightarrow> []) us)"

text \<open>
  A batch over \<open>us\<close> in a service that does nothing else: the URIs before the cursor have
  been validated in order and their promises, numbered in that order, have settled with
  the result of \<^verbatim>\<open>validate\<close>; the URIs in flight have the armed timers, in order, and the
  next promises; \<open>pl\<close> is the pool.
\<close>

definition batch :: "world \<Rightarrow> uri list \<Rightarrow> uri list \<Rightarrow> uri list \<Rightarrow> uri list \<Rightarrow> pool \<Rightarrow> state \<Rightarrow> bool" where
  "batch w us finished flying waiting pl s \<longleftrightarrow>
     us = finished @ flying @ waiting \<and> distinct us \<and> sched_inv s \<and> length flying \<le> 3 \<and>
     map t_uri (timers s) = flying \<and>
     map t_promise (timers s) = [length finished ..< length finished + length flying] \<and>
     next_promise s = length finished + length flying \<and>
     pl = \<lparr>uris = us, currentIndex = length finished + length flying, concurrency = 3,
           tracked = map t_promise (timers s)\<rparr> \<and>
     (\<forall>p. settled s p =
        (if p < length finished then Some (fst (validate w (us ! p))) else None)) \<and>
     filter is_Validate (trace s) = map Validate finished \<and>
     filter is_SendException (trace s) = reports w finished"

text \<open>
  The batch is the only pool of the state, and it is saturated.
\<close>

definition running :: "world \<Rightarrow> uri list \<Rightarrow> uri list \<Rightarrow> uri list \<Rightarrow> uri list \<Rightarrow> state \<Rightarrow> bool" where
  "running w us finished flying waiting s \<longleftrightarrow>
     (\<exists>pl. pools s = [pl] \<and> batch w us finished flying waiting pl s) \<and>
     (waiting \<noteq> [] \<longrightarrow> length flying = 3)"

text \<open>
  A workspace of five files, and the state after the batch over it was started.
\<close>

definition five_files :: "uri list" where
  "five_files = [''a.yaml'', ''b.yaml'', ''c.yaml'', ''d.yaml'', ''e.yaml'']"

definition batch_started :: state where
  "batch_started = run [(example_world, OnWorkplaceFilesInitialized five_files)] init"

text \<open>
  The pool of that state: three validations in flight, the cursor on the fourth URI.
\<close>

definition three_flying :: pool where
  "three_flying = \<lparr>uris = five_files, currentIndex = 3, concurrency = 3, tracked = [0, 1, 2]\<rparr>"

section \<open>Basic facts\<close>

lemma trace_emit [simp]: "trace (emit cs s) = trace s @ cs"
  by (simp add: emit_def)

lemma pending_emit [simp]: "pendingValidationRequests (emit cs s) = pendingValidationRequests s"
  by (simp add: emit_def)

lemma next_handle_emit [simp]: "next_handle (emit cs s) = next_handle s"
  by (simp add: emit_def)

lemma trace_cleanPendingValidation:
  "trace (cleanPendingValidation u s) =
     trace s @ (case pendingValidationRequests s u of None \<Rightarrow> [] | Some h \<Rightarrow> [ClearTimeout h])"
  by (simp add: cleanPendingValidation_def clearTimeout_def Let_def split: option.splits)

lemma next_handle_cleanPendingValidation [simp]:
  "next_handle (cleanPendingValidation u s) = next_handle s"
  by (simp add: cleanPendingValidation_def clearTimeout_def Let_def split: option.splits)

lemma trace_doValidation:
  "trace (snd (doValidation u s)) =
     trace s @ (case pendingValidationRequests s u of None \<Rightarrow> [] | Some h \<Rightarrow> [ClearTimeout h])
       @ [SetTimeout (next_handle s) u 200]"
  by (simp add: doValidation_def setTimeout_def Let_def trace_cleanPendingValidation
      VALIDATION_DELAY_MS_def)

section \<open>The invariant holds in every reachable state\<close>

lemma sched_inv_init: "sched_inv init"
  by (simp add: sched_inv_def init_def)

lemma sched_inv_cong:
  "timers s' = timers s \<Longrightarrow> pendingValidationRequests s' = pendingValidationRequests s \<Longrightarrow>
   next_handle s' = next_handle s \<Longrightarrow> next_promise s' = next_promise s \<Longrightarrow>
   settled s' = settled s \<Longrightarrow> now s' = now s \<Longrightarrow> sched_inv s' = sched_inv s"
  by (simp add: sched_inv_def)

lemma emit_fields [simp]:
  "timers (emit cs s) = timers s" "next_promise (emit cs s) = next_promise s"
  "settled (emit cs s) = settled s" "now (emit cs s) = now s" "pools (emit cs s) = pools s"
  by (simp_all add: emit_def)

lemma sched_inv_emit [simp]: "sched_inv (emit cs s) = sched_inv s"
  by (rule sched_inv_cong) simp_all

lemma sched_inv_pools [simp]: "sched_inv (s\<lparr>pools := ps\<rparr>) = sched_inv s"
  by (rule sched_inv_cong) simp_all

lemma clean_fields [simp]:
  "pendingValidationRequests (cleanPendingValidation u s) = (pendingValidationRequests s)(u := None)"
  "next_promise (cleanPendingValidation u s) = next_promise s"
  "settled (cleanPendingValidation u s) = settled s"
  "now (cleanPendingValidation u s) = now s"
  "pools (cleanPendingValidation u s) = pools s"
  by (auto simp: cleanPendingValidation_def clearTimeout_def Let_def split: option.splits)

lemma timers_clean:
  "timers (cleanPendingValidation u s) =
     (case pendingValidationRequests s u of
        None \<Rightarrow> timers s
      | Some h \<Rightarrow> filter (\<lambda>t. handle t \<noteq> h) (timers s))"
  by (simp add: cleanPendingValidation_def clearTimeout_def Let_def split: option.splits)

lemma sched_inv_pending:
  "sched_inv s \<Longrightarrow> t \<in> set (timers s) \<Longrightarrow> pendingValidationRequests s (t_uri t) = Some (handle t)"
  by (simp add: sched_inv_def)

lemma sched_inv_timer:
  "sched_inv s \<Longrightarrow> pendingValidationRequests s u = Some h \<Longrightarrow>
     \<exists>t \<in> set (timers s). handle t = h \<and> t_uri t = u"
  unfolding sched_inv_def by blast

lemma sched_inv_no_timer:
  "sched_inv s \<Longrightarrow> pendingValidationRequests s u = None \<Longrightarrow> t \<in> set (timers s) \<Longrightarrow> t_uri t \<noteq> u"
  by (auto dest: sched_inv_pending)

lemma sched_inv_same_uri:
  assumes "sched_inv s" "t \<in> set (timers s)" "t' \<in> set (timers s)" "t_uri t = t_uri t'"
  shows "t = t'"
proof -
  from assms have "handle t = handle t'"
    by (metis option.inject sched_inv_pending)
  moreover from assms(1) have "inj_on handle (set (timers s))"
    by (simp add: sched_inv_def distinct_map)
  ultimately show ?thesis using assms(2,3) by (auto dest: inj_onD)
qed

lemma timers_clean_inv:
  assumes "sched_inv s"
  shows "timers (cleanPendingValidation u s) = filter (\<lambda>t. t_uri t \<noteq> u) (timers s)"
proof (cases "pendingValidationRequests s u")
  case None
  with assms have "\<forall>t \<in> set (timers s). t_uri t \<noteq> u"
    by (auto dest: sched_inv_no_timer)
  with None show ?thesis by (simp add: timers_clean)
next
  case (Some h)
  from sched_inv_timer [OF assms Some]
  obtain t' where t': "t' \<in> set (timers s)" "handle t' = h" "t_uri t' = u" by blast
  have "(handle t \<noteq> h) = (t_uri t \<noteq> u)" if t: "t \<in> set (timers s)" for t
  proof
    assume "handle t \<noteq> h"
    with sched_inv_pending [OF assms t] Some show "t_uri t \<noteq> u" by auto
  next
    assume neq: "t_uri t \<noteq> u"
    from assms have "inj_on handle (set (timers s))"
      by (simp add: sched_inv_def distinct_map)
    with t t'(1) have "handle t = handle t' \<Longrightarrow> t = t'"
      by (auto dest: inj_onD)
    with t' neq show "handle t \<noteq> h" by auto
  qed
  then have "filter (\<lambda>t. handle t \<noteq> h) (timers s) = filter (\<lambda>t. t_uri t \<noteq> u) (timers s)"
    by (auto intro: filter_cong)
  with Some show ?thesis by (simp add: timers_clean)
qed

lemma sched_invI:
  assumes "distinct (map handle (timers s))" "distinct (map t_promise (timers s))"
    and "\<And>t. t \<in> set (timers s) \<Longrightarrow> handle t < next_handle s"
    and "\<And>t. t \<in> set (timers s) \<Longrightarrow> t_promise t < next_promise s"
    and "\<And>t. t \<in> set (timers s) \<Longrightarrow> pendingValidationRequests s (t_uri t) = Some (handle t)"
    and "\<And>t. t \<in> set (timers s) \<Longrightarrow> settled s (t_promise t) = None"
    and "\<And>t. t \<in> set (timers s) \<Longrightarrow> due t \<le> now s + VALIDATION_DELAY_MS"
    and "\<And>u h. pendingValidationRequests s u = Some h \<Longrightarrow>
           \<exists>t \<in> set (timers s). handle t = h \<and> t_uri t = u"
    and "\<And>p r. settled s p = Some r \<Longrightarrow> p < next_promise s"
  shows "sched_inv s"
  unfolding sched_inv_def using assms by blast

lemma sched_inv_distinct:
  "sched_inv s \<Longrightarrow> distinct (map handle (timers s))"
  "sched_inv s \<Longrightarrow> distinct (map t_promise (timers s))"
  by (simp_all add: sched_inv_def)

lemma sched_inv_bounds:
  "sched_inv s \<Longrightarrow> t \<in> set (timers s) \<Longrightarrow> handle t < next_handle s"
  "sched_inv s \<Longrightarrow> t \<in> set (timers s) \<Longrightarrow> t_promise t < next_promise s"
  "sched_inv s \<Longrightarrow> t \<in> set (timers s) \<Longrightarrow> settled s (t_promise t) = None"
  "sched_inv s \<Longrightarrow> t \<in> set (timers s) \<Longrightarrow> due t \<le> now s + VALIDATION_DELAY_MS"
  by (simp_all add: sched_inv_def)

lemma sched_inv_settled:
  "sched_inv s \<Longrightarrow> settled s p = Some r \<Longrightarrow> p < next_promise s"
  unfolding sched_inv_def by blast

lemma sched_inv_clean:
  assumes "sched_inv s"
  shows "sched_inv (cleanPendingValidation u s)"
proof (rule sched_invI)
  note ts = timers_clean_inv [OF assms, of u]
  show "distinct (map handle (timers (cleanPendingValidation u s)))"
    unfolding ts using sched_inv_distinct(1) [OF assms] by (rule distinct_map_filter)
  show "distinct (map t_promise (timers (cleanPendingValidation u s)))"
    unfolding ts using sched_inv_distinct(2) [OF assms] by (rule distinct_map_filter)
  fix t assume "t \<in> set (timers (cleanPendingValidation u s))"
  then have t: "t \<in> set (timers s)" "t_uri t \<noteq> u" by (simp_all add: ts)
  show "handle t < next_handle (cleanPendingValidation u s)"
    using sched_inv_bounds(1) [OF assms t(1)] by simp
  show "t_promise t < next_promise (cleanPendingValidation u s)"
    using sched_inv_bounds(2) [OF assms t(1)] by simp
  show "pendingValidationRequests (cleanPendingValidation u s) (t_uri t) = Some (handle t)"
    using sched_inv_pending [OF assms t(1)] t(2) by simp
  show "settled (cleanPendingValidation u s) (t_promise t) = None"
    using sched_inv_bounds(3) [OF assms t(1)] by simp
  show "due t \<le> now (cleanPendingValidation u s) + VALIDATION_DELAY_MS"
    using sched_inv_bounds(4) [OF assms t(1)] by simp
next
  fix v h assume "pendingValidationRequests (cleanPendingValidation u s) v = Some h"
  then have v: "v \<noteq> u" "pendingValidationRequests s v = Some h"
    by (simp_all split: if_splits)
  from sched_inv_timer [OF assms v(2)] v(1)
  show "\<exists>t \<in> set (timers (cleanPendingValidation u s)). handle t = h \<and> t_uri t = v"
    unfolding timers_clean_inv [OF assms] by auto
next
  fix p r assume "settled (cleanPendingValidation u s) p = Some r"
  then show "p < next_promise (cleanPendingValidation u s)"
    using sched_inv_settled [OF assms] by simp
qed

lemma doValidation_fields [simp]:
  "fst (doValidation u s) = next_promise s"
  "pendingValidationRequests (snd (doValidation u s)) = (pendingValidationRequests s)(u \<mapsto> next_handle s)"
  "next_promise (snd (doValidation u s)) = Suc (next_promise s)"
  "next_handle (snd (doValidation u s)) = Suc (next_handle s)"
  "settled (snd (doValidation u s)) = settled s"
  "now (snd (doValidation u s)) = now s"
  "pools (snd (doValidation u s)) = pools s"
  by (simp_all add: doValidation_def setTimeout_def Let_def)

lemma timers_doValidation:
  "timers (snd (doValidation u s)) = timers (cleanPendingValidation u s) @
     [\<lparr>handle = next_handle s, due = now s + VALIDATION_DELAY_MS, t_uri = u, t_promise = next_promise s\<rparr>]"
  by (simp add: doValidation_def setTimeout_def Let_def)

lemma sched_inv_doValidation:
  assumes "sched_inv s"
  shows "sched_inv (snd (doValidation u s))"
proof (rule sched_invI)
  let ?c = "cleanPendingValidation u s"
  let ?n = "\<lparr>handle = next_handle s, due = now s + VALIDATION_DELAY_MS, t_uri = u, t_promise = next_promise s\<rparr>"
  note c = sched_inv_clean [OF assms, of u]
  note ts = timers_doValidation [of u s]
  have old: "t \<in> set (timers s) \<and> t_uri t \<noteq> u" if "t \<in> set (timers ?c)" for t
    using that by (simp add: timers_clean_inv [OF assms])
  have fresh_h: "next_handle s \<notin> handle ` set (timers ?c)"
    using sched_inv_bounds(1) [OF c] by fastforce
  have fresh_p: "next_promise s \<notin> t_promise ` set (timers ?c)"
    using sched_inv_bounds(2) [OF c] by fastforce
  show "distinct (map handle (timers (snd (doValidation u s))))"
    unfolding ts using sched_inv_distinct(1) [OF c] fresh_h by simp
  show "distinct (map t_promise (timers (snd (doValidation u s))))"
    unfolding ts using sched_inv_distinct(2) [OF c] fresh_p by simp
  have unsettled: "settled s (next_promise s) = None"
    using sched_inv_settled [OF assms, of "next_promise s"] by (cases "settled s (next_promise s)") auto
  fix t assume "t \<in> set (timers (snd (doValidation u s)))"
  then consider "t \<in> set (timers ?c)" | "t = ?n" by (auto simp: ts)
  note cases_t = this
  show "handle t < next_handle (snd (doValidation u s))"
    using cases_t sched_inv_bounds(1) [OF c] by cases (auto simp: less_Suc_eq)
  show "t_promise t < next_promise (snd (doValidation u s))"
    using cases_t sched_inv_bounds(2) [OF c] by cases (auto simp: less_Suc_eq)
  show "pendingValidationRequests (snd (doValidation u s)) (t_uri t) = Some (handle t)"
    using cases_t
  proof cases
    case 1
    with old have "t \<in> set (timers s)" "t_uri t \<noteq> u" by auto
    with sched_inv_pending [OF assms] show ?thesis by simp
  next
    case 2 then show ?thesis by simp
  qed
  show "settled (snd (doValidation u s)) (t_promise t) = None"
    using cases_t sched_inv_bounds(3) [OF c] unsettled by cases auto
  show "due t \<le> now (snd (doValidation u s)) + VALIDATION_DELAY_MS"
    using cases_t sched_inv_bounds(4) [OF c] by cases auto
next
  fix v h assume "pendingValidationRequests (snd (doValidation u s)) v = Some h"
  then consider "v = u" "h = next_handle s" | "v \<noteq> u" "pendingValidationRequests s v = Some h"
    by (auto split: if_splits)
  then show "\<exists>t \<in> set (timers (snd (doValidation u s))). handle t = h \<and> t_uri t = v"
  proof cases
    case 1 then show ?thesis by (simp add: timers_doValidation)
  next
    case 2
    from sched_inv_timer [OF assms 2(2)] 2(1) show ?thesis
      unfolding timers_doValidation timers_clean_inv [OF assms] by auto
  qed
next
  fix p r assume "settled (snd (doValidation u s)) p = Some r"
  then show "p < next_promise (snd (doValidation u s))"
    using sched_inv_settled [OF assms, of p r] by simp
qed

lemma nth_in_drop: "i < length xs \<Longrightarrow> xs ! i \<in> set (drop i xs)"
  by (metis Cons_nth_drop_Suc list.set_intros(1))

lemma drop_Suc_subset: "set (drop (Suc i) xs) \<subseteq> set (drop i xs)"
  by (rule set_drop_subset_set_drop) simp

lemma proceed_stop:
  "\<not> (length (tracked pl) < concurrency pl \<and> currentIndex pl < length (uris pl)) \<Longrightarrow>
     proceed pl s = (pl, s)"
  by (subst proceed.simps, rule if_not_P)

lemma proceed_step:
  "length (tracked pl) < concurrency pl \<and> currentIndex pl < length (uris pl) \<Longrightarrow>
     proceed pl s =
       proceed (pl\<lparr>currentIndex := currentIndex pl + 1,
                   tracked := tracked pl @ [fst (doValidation (uris pl ! currentIndex pl) s)]\<rparr>)
         (snd (doValidation (uris pl ! currentIndex pl) s))"
  by (subst proceed.simps) (simp add: case_prod_beta Let_def)

lemma proceed_preserves:
  assumes "P s"
    and "\<And>v s'. v \<in> set (drop (currentIndex pl) (uris pl)) \<Longrightarrow> P s' \<Longrightarrow> P (snd (doValidation v s'))"
  shows "P (snd (proceed pl s))"
  using assms
proof (induction pl s rule: proceed.induct)
  case (1 pl s)
  show ?case
  proof (cases "length (tracked pl) < concurrency pl \<and> currentIndex pl < length (uris pl)")
    case False
    then have "proceed pl s = (pl, s)" by (rule proceed_stop)
    then show ?thesis using "1.prems"(1) by simp
  next
    case True
    let ?v = "uris pl ! currentIndex pl"
    let ?pl' = "pl\<lparr>currentIndex := currentIndex pl + 1, tracked := tracked pl @ [fst (doValidation ?v s)]\<rparr>"
    have "P (snd (doValidation ?v s))"
      using "1.prems" True by (simp add: nth_in_drop)
    moreover have "\<And>v s'. v \<in> set (drop (currentIndex ?pl') (uris ?pl')) \<Longrightarrow> P s' \<Longrightarrow>
        P (snd (doValidation v s'))"
      using "1.prems"(2) drop_Suc_subset [of "currentIndex pl" "uris pl"] by auto
    ultimately have "P (snd (proceed ?pl' (snd (doValidation ?v s))))"
      by (rule "1.IH" [OF True refl prod.collapse])
    then show ?thesis by (simp only: proceed_step [OF True])
  qed
qed

lemma proceed_pool:
  "uris (fst (proceed pl s)) = uris pl \<and> concurrency (fst (proceed pl s)) = concurrency pl \<and>
   currentIndex pl \<le> currentIndex (fst (proceed pl s)) \<and>
   (currentIndex pl \<le> length (uris pl) \<longrightarrow> currentIndex (fst (proceed pl s)) \<le> length (uris pl)) \<and>
   (length (tracked pl) \<le> concurrency pl \<longrightarrow> length (tracked (fst (proceed pl s))) \<le> concurrency pl) \<and>
   tracked (fst (proceed pl s)) =
     tracked pl @ [next_promise s ..< next_promise (snd (proceed pl s))] \<and>
   next_promise s \<le> next_promise (snd (proceed pl s)) \<and>
   settled (snd (proceed pl s)) = settled s \<and> now (snd (proceed pl s)) = now s \<and>
   pools (snd (proceed pl s)) = pools s"
proof (induction pl s rule: proceed.induct)
  case (1 pl s)
  show ?case
  proof (cases "length (tracked pl) < concurrency pl \<and> currentIndex pl < length (uris pl)")
    case False
    then show ?thesis by (auto simp: proceed_stop)
  next
    case True
    let ?v = "uris pl ! currentIndex pl"
    let ?pl' = "pl\<lparr>currentIndex := currentIndex pl + 1, tracked := tracked pl @ [fst (doValidation ?v s)]\<rparr>"
    let ?s' = "snd (doValidation ?v s)"
    note IH = "1.IH" [OF True refl prod.collapse, simplified]
    have "[next_promise s ..< next_promise (snd (proceed ?pl' ?s'))] =
        next_promise s # [Suc (next_promise s) ..< next_promise (snd (proceed ?pl' ?s'))]"
      using IH by (simp add: upt_conv_Cons)
    with IH True show ?thesis unfolding proceed_step [OF True] by auto
  qed
qed

lemma proceed_uris [simp]: "uris (fst (proceed pl s)) = uris pl"
  and proceed_concurrency [simp]: "concurrency (fst (proceed pl s)) = concurrency pl"
  and proceed_index_mono: "currentIndex pl \<le> currentIndex (fst (proceed pl s))"
  and proceed_tracked:
    "tracked (fst (proceed pl s)) = tracked pl @ [next_promise s ..< next_promise (snd (proceed pl s))]"
  and proceed_next_promise: "next_promise s \<le> next_promise (snd (proceed pl s))"
  and proceed_settled [simp]: "settled (snd (proceed pl s)) = settled s"
  and proceed_now [simp]: "now (snd (proceed pl s)) = now s"
  and proceed_pools [simp]: "pools (snd (proceed pl s)) = pools s"
  using proceed_pool [of pl s] by blast+

lemma proceed_index_le:
  "currentIndex pl \<le> length (uris pl) \<Longrightarrow> currentIndex (fst (proceed pl s)) \<le> length (uris pl)"
  using proceed_pool [of pl s] by blast

lemma proceed_tracked_le:
  "length (tracked pl) \<le> concurrency pl \<Longrightarrow> length (tracked (fst (proceed pl s))) \<le> concurrency pl"
  using proceed_pool [of pl s] by blast

lemma pool_inv_pre: "pool_inv s pl \<Longrightarrow> pool_pre p s pl"
  by (simp add: pool_inv_def pool_pre_def)

lemma pool_inv_mono:
  "pool_inv s pl \<Longrightarrow> settled s' = settled s \<Longrightarrow> next_promise s \<le> next_promise s' \<Longrightarrow> pool_inv s' pl"
  by (fastforce simp: pool_inv_def)

lemma pool_pre_mono:
  "pool_pre p s pl \<Longrightarrow> settled s' = settled s \<Longrightarrow> next_promise s \<le> next_promise s' \<Longrightarrow> pool_pre p s' pl"
  by (fastforce simp: pool_pre_def)

lemma ahead_proceed: "ahead (fst (proceed pl s)) \<subseteq> ahead pl"
proof -
  show ?thesis unfolding ahead_def
    using proceed_index_mono [of pl s] by (simp add: set_drop_subset_set_drop)
qed

lemma pool_settled_preserves:
  assumes "P s"
    and "\<And>v s'. v \<in> ahead pl \<Longrightarrow> P s' \<Longrightarrow> P (snd (doValidation v s'))"
    and "\<And>s'. P s' \<Longrightarrow> P (emit (snd (catch_sendException r)) s')"
  shows "P (snd (pool_settled p r pl s))"
proof (cases "p \<in> set (tracked pl)")
  case False
  then show ?thesis using assms(1) by (simp add: pool_settled_def)
next
  case True
  have "P (snd (proceed (pl\<lparr>tracked := removeAll p (tracked pl)\<rparr>) (emit (snd (catch_sendException r)) s)))"
    by (rule proceed_preserves) (use assms in \<open>auto simp: ahead_def\<close>)
  with True show ?thesis by (simp add: pool_settled_def case_prod_beta)
qed

lemma settle_pools_preserves:
  assumes "P s"
    and "\<And>v s'. v \<in> (\<Union>pl \<in> set pls. ahead pl) \<Longrightarrow> P s' \<Longrightarrow> P (snd (doValidation v s'))"
    and "\<And>s'. P s' \<Longrightarrow> P (emit (snd (catch_sendException r)) s')"
  shows "P (snd (settle_pools p r pls s))"
  using assms
proof (induction pls arbitrary: s)
  case Nil
  then show ?case by simp
next
  case (Cons pl pls)
  have "P (snd (pool_settled p r pl s))"
    by (rule pool_settled_preserves) (use Cons.prems in auto)
  then have "P (snd (settle_pools p r pls (snd (pool_settled p r pl s))))"
    by (rule Cons.IH) (use Cons.prems in auto)
  then show ?case by (simp add: case_prod_beta)
qed

lemma doValidation_frame:
  "settled (snd (doValidation v s)) = settled s \<and> next_promise s \<le> next_promise (snd (doValidation v s))
   \<and> now (snd (doValidation v s)) = now s \<and> pools (snd (doValidation v s)) = pools s"
  by simp

lemma settle_pools_frame:
  "settled (snd (settle_pools p r pls s)) = settled s \<and>
   next_promise s \<le> next_promise (snd (settle_pools p r pls s)) \<and>
   now (snd (settle_pools p r pls s)) = now s \<and> pools (snd (settle_pools p r pls s)) = pools s"
  by (rule settle_pools_preserves
      [where P = "\<lambda>x. settled x = settled s \<and> next_promise s \<le> next_promise x \<and> now x = now s \<and> pools x = pools s"])
    auto

lemma pool_settled_frame:
  "settled (snd (pool_settled p r pl s)) = settled s \<and>
   next_promise s \<le> next_promise (snd (pool_settled p r pl s))"
  by (rule pool_settled_preserves
      [where P = "\<lambda>x. settled x = settled s \<and> next_promise s \<le> next_promise x"])
    auto

lemma pool_settled_ahead: "ahead (fst (pool_settled p r pl s)) \<subseteq> ahead pl"
proof (cases "p \<in> set (tracked pl)")
  case True
  then show ?thesis
    using ahead_proceed [of "pl\<lparr>tracked := removeAll p (tracked pl)\<rparr>"]
    by (simp add: pool_settled_def case_prod_beta ahead_def)
qed (simp add: pool_settled_def)

lemma pool_settled_inv:
  assumes pre: "pool_pre p s pl" and fresh: "\<And>q. next_promise s \<le> q \<Longrightarrow> settled s q = None"
    and p: "p < next_promise s"
  shows "pool_inv (snd (pool_settled p r pl s)) (fst (pool_settled p r pl s))"
proof (cases "p \<in> set (tracked pl)")
  case False
  with pre show ?thesis by (auto simp: pool_settled_def pool_inv_def pool_pre_def)
next
  case True
  let ?pl = "pl\<lparr>tracked := removeAll p (tracked pl)\<rparr>"
  let ?s = "emit (snd (catch_sendException r)) s"
  have eq: "pool_settled p r pl s = proceed ?pl ?s"
    using True by (simp add: pool_settled_def case_prod_beta)
  have "length (tracked pl) \<le> 3" "concurrency pl = 3"
    using pre by (simp_all add: pool_pre_def)
  then have len: "length (tracked ?pl) \<le> concurrency ?pl"
    using le_trans [OF length_removeAll_less_eq, of "tracked pl" 3 p] by simp
  have "concurrency (fst (proceed ?pl ?s)) = 3" using pre by (simp add: pool_pre_def)
  moreover have "length (tracked (fst (proceed ?pl ?s))) \<le> 3"
    using proceed_tracked_le [OF len, of ?s] pre by (simp add: pool_pre_def)
  moreover have "currentIndex (fst (proceed ?pl ?s)) \<le> length (uris (fst (proceed ?pl ?s)))"
    using proceed_index_le [of ?pl ?s] pre by (simp add: pool_pre_def)
  moreover have "q < next_promise (snd (proceed ?pl ?s)) \<and> settled (snd (proceed ?pl ?s)) q = None"
    if "q \<in> set (tracked (fst (proceed ?pl ?s)))" for q
  proof -
    from that have "q \<in> set (removeAll p (tracked pl)) \<or>
        (next_promise s \<le> q \<and> q < next_promise (snd (proceed ?pl ?s)))"
      unfolding proceed_tracked [of ?pl ?s] by auto
    then show ?thesis
    proof
      assume "q \<in> set (removeAll p (tracked pl))"
      then have "q \<in> set (tracked pl)" "q \<noteq> p" by auto
      with pre have "q < next_promise s" "settled s q = None" by (auto simp: pool_pre_def)
      with proceed_next_promise [of ?s ?pl] show ?thesis by auto
    next
      assume "next_promise s \<le> q \<and> q < next_promise (snd (proceed ?pl ?s))"
      with fresh [of q] show ?thesis by auto
    qed
  qed
  ultimately show ?thesis unfolding eq pool_inv_def by blast
qed

lemma settle_pools_inv:
  assumes "\<forall>pl \<in> set pls. pool_pre p s pl" and "\<And>q. next_promise s \<le> q \<Longrightarrow> settled s q = None"
    and "p < next_promise s"
  shows "\<forall>pl \<in> set (fst (settle_pools p r pls s)). pool_inv (snd (settle_pools p r pls s)) pl"
  using assms
proof (induction pls arbitrary: s)
  case Nil
  then show ?case by simp
next
  case (Cons pl pls)
  let ?s' = "snd (pool_settled p r pl s)"
  let ?pl' = "fst (pool_settled p r pl s)"
  let ?s'' = "snd (settle_pools p r pls ?s')"
  note f1 = pool_settled_frame [of p r pl s]
  note f2 = settle_pools_frame [of p r pls ?s']
  have "pool_inv ?s' ?pl'"
    by (rule pool_settled_inv) (use Cons.prems in auto)
  then have a: "pool_inv ?s'' ?pl'"
    by (rule pool_inv_mono) (use f2 in auto)
  have "\<forall>pl \<in> set (fst (settle_pools p r pls ?s')). pool_inv ?s'' pl"
  proof (rule Cons.IH)
    show "\<forall>pl \<in> set pls. pool_pre p ?s' pl"
      using Cons.prems(1) f1 by (auto intro: pool_pre_mono)
    show "settled ?s' q = None" if "next_promise ?s' \<le> q" for q
      using that f1 Cons.prems(2) [of q] by auto
    show "p < next_promise ?s'" using f1 Cons.prems(3) by auto
  qed
  with a show ?case by (simp add: case_prod_beta)
qed

lemma promiseRejectionHandler_fulfilled [simp]: "fst (promiseRejectionHandler r) = Inr ()"
  by (cases r) (simp_all add: promiseRejectionHandler_def)

lemma fire_armed:
  "t \<in> set (timers s) \<Longrightarrow>
     fire w t s =
       (snd (settle_pools (t_promise t) (Inr ()) (pools s) (fired w t s)))
         \<lparr>pools := fst (settle_pools (t_promise t) (Inr ()) (pools s) (fired w t s))\<rparr>"
  by (cases "promiseRejectionHandler (fst (validate w (t_uri t)))")
    (simp add: fire_def timer_callback_def on_settle_def fired_def emit_def case_prod_beta Let_def)

lemma fire_disarmed: "t \<notin> set (timers s) \<Longrightarrow> fire w t s = s"
  by (simp add: fire_def)

lemma fired_fields [simp]:
  "timers (fired w t s) = filter (\<lambda>x. handle x \<noteq> handle t) (timers s)"
  "pendingValidationRequests (fired w t s) = (pendingValidationRequests s)(t_uri t := None)"
  "settled (fired w t s) = (settled s)(t_promise t \<mapsto> fst (validate w (t_uri t)))"
  "next_handle (fired w t s) = next_handle s" "next_promise (fired w t s) = next_promise s"
  "now (fired w t s) = now s" "pools (fired w t s) = pools s"
  by (simp_all add: fired_def)

lemma timers_fired:
  assumes "sched_inv s" "t \<in> set (timers s)"
  shows "timers (fired w t s) = filter (\<lambda>x. t_uri x \<noteq> t_uri t) (timers s)"
proof -
  have "(handle x \<noteq> handle t) = (t_uri x \<noteq> t_uri t)" if "x \<in> set (timers s)" for x
  proof -
    from assms(1) have "inj_on handle (set (timers s))"
      by (simp add: sched_inv_def distinct_map)
    with that assms(2) have "handle x = handle t \<Longrightarrow> x = t" by (auto dest: inj_onD)
    moreover have "t_uri x = t_uri t \<Longrightarrow> x = t"
      using sched_inv_same_uri [OF assms(1) that assms(2)] by simp
    ultimately show ?thesis by auto
  qed
  then have "filter (\<lambda>x. handle x \<noteq> handle t) (timers s) =
      filter (\<lambda>x. t_uri x \<noteq> t_uri t) (timers s)"
    by (intro filter_cong refl)
  then show ?thesis by simp
qed

lemma sched_inv_fired:
  assumes "sched_inv s" "t \<in> set (timers s)"
  shows "sched_inv (fired w t s)"
proof (rule sched_invI)
  note ts = timers_fired [OF assms, of w]
  have inj: "inj_on t_promise (set (timers s))"
    using assms(1) by (simp add: sched_inv_def distinct_map)
  show "distinct (map handle (timers (fired w t s)))"
    unfolding ts using sched_inv_distinct(1) [OF assms(1)] by (rule distinct_map_filter)
  show "distinct (map t_promise (timers (fired w t s)))"
    unfolding ts using sched_inv_distinct(2) [OF assms(1)] by (rule distinct_map_filter)
  fix x assume "x \<in> set (timers (fired w t s))"
  then have x: "x \<in> set (timers s)" "t_uri x \<noteq> t_uri t" unfolding ts by simp_all
  then have "x \<noteq> t" by auto
  with inj x(1) assms(2) have px: "t_promise x \<noteq> t_promise t" by (auto dest: inj_onD)
  show "handle x < next_handle (fired w t s)"
    using sched_inv_bounds(1) [OF assms(1) x(1)] by simp
  show "t_promise x < next_promise (fired w t s)"
    using sched_inv_bounds(2) [OF assms(1) x(1)] by simp
  show "pendingValidationRequests (fired w t s) (t_uri x) = Some (handle x)"
    using sched_inv_pending [OF assms(1) x(1)] x(2) by simp
  show "settled (fired w t s) (t_promise x) = None"
    using sched_inv_bounds(3) [OF assms(1) x(1)] px by simp
  show "due x \<le> now (fired w t s) + VALIDATION_DELAY_MS"
    using sched_inv_bounds(4) [OF assms(1) x(1)] by simp
next
  fix v h assume "pendingValidationRequests (fired w t s) v = Some h"
  then have v: "v \<noteq> t_uri t" "pendingValidationRequests s v = Some h"
    by (simp_all split: if_splits)
  from sched_inv_timer [OF assms(1) v(2)] v(1)
  show "\<exists>x \<in> set (timers (fired w t s)). handle x = h \<and> t_uri x = v"
    unfolding timers_fired [OF assms] by auto
next
  fix p r assume "settled (fired w t s) p = Some r"
  then show "p < next_promise (fired w t s)"
    using sched_inv_settled [OF assms(1), of p r] sched_inv_bounds(2) [OF assms]
    by (auto split: if_splits)
qed

lemma sched_inv_fresh: "sched_inv s \<Longrightarrow> next_promise s \<le> q \<Longrightarrow> settled s q = None"
  using sched_inv_settled [of s q] by (cases "settled s q") auto

lemma pool_inv_cong:
  "settled s' = settled s \<Longrightarrow> next_promise s' = next_promise s \<Longrightarrow> pool_inv s' pl = pool_inv s pl"
  by (simp add: pool_inv_def)

lemma inv_fire:
  assumes "service_inv s"
  shows "service_inv (fire w t s)"
proof (cases "t \<in> set (timers s)")
  case False
  with assms show ?thesis by (simp add: fire_disarmed)
next
  case True
  from assms have si: "sched_inv s" and pi: "\<forall>pl \<in> set (pools s). pool_inv s pl"
    by (simp_all add: service_inv_def)
  let ?f = "fired w t s"
  let ?r = "settle_pools (t_promise t) (Inr ()) (pools s) ?f"
  have sf: "sched_inv ?f" by (rule sched_inv_fired [OF si True])
  have "sched_inv (snd ?r)"
    by (rule settle_pools_preserves) (use sf sched_inv_doValidation in auto)
  moreover have "\<forall>pl \<in> set (fst ?r). pool_inv (snd ?r) pl"
  proof (rule settle_pools_inv)
    show "\<forall>pl \<in> set (pools s). pool_pre (t_promise t) ?f pl"
      using pi by (auto simp: pool_inv_def pool_pre_def)
    show "settled ?f q = None" if "next_promise ?f \<le> q" for q
      using that by (rule sched_inv_fresh [OF sf])
    show "t_promise t < next_promise ?f"
      using sched_inv_bounds(2) [OF si True] by simp
  qed
  ultimately show ?thesis
    unfolding fire_armed [OF True] service_inv_def by (simp add: pool_inv_def)
qed

lemma fold_preserves:
  "(\<And>x s. P s \<Longrightarrow> P (f x s)) \<Longrightarrow> P s \<Longrightarrow> P (fold f xs s)"
  by (induction xs arbitrary: s) simp_all

lemma inv_now: "service_inv s \<Longrightarrow> service_inv (s\<lparr>now := now s + d\<rparr>)"
  by (fastforce simp: service_inv_def sched_inv_def pool_inv_def)

lemma inv_elapse: "service_inv s \<Longrightarrow> service_inv (elapse w d s)"
  unfolding elapse_def Let_def
  by (rule fold_preserves [where P = service_inv]) (auto intro: inv_fire inv_now)

lemma inv_emit [simp]: "service_inv (emit cs s) = service_inv s"
  by (simp add: service_inv_def pool_inv_def)

lemma inv_doValidation: "service_inv s \<Longrightarrow> service_inv (snd (doValidation u s))"
  by (auto simp: service_inv_def sched_inv_doValidation intro: pool_inv_mono)

lemma inv_clean: "service_inv s \<Longrightarrow> service_inv (cleanPendingValidation u s)"
  by (auto simp: service_inv_def sched_inv_clean intro: pool_inv_mono)

lemma inv_clearDocument: "service_inv s \<Longrightarrow> service_inv (clearDocument w u s)"
  by (simp add: clearDocument_def Let_def inv_clean split: option.splits)

lemma inv_onFileChanged: "service_inv s \<Longrightarrow> service_inv (snd (onFileChanged w u s))"
  by (simp add: onFileChanged_def Let_def inv_doValidation split: option.splits)

lemma inv_trigger:
  assumes "service_inv s"
  shows "service_inv (triggerValidationForWorkspaceFiles us s)"
proof -
  let ?pl = "\<lparr>uris = us, currentIndex = 0, concurrency = 3, tracked = []\<rparr>"
  let ?r = "proceed ?pl s"
  from assms have si: "sched_inv s" and pi: "\<forall>pl \<in> set (pools s). pool_inv s pl"
    by (simp_all add: service_inv_def)
  have s': "sched_inv (snd ?r)"
    by (rule proceed_preserves) (use si sched_inv_doValidation in auto)
  have old: "\<forall>pl \<in> set (pools s). pool_inv (snd ?r) pl"
    using pi proceed_next_promise [of s ?pl] by (auto intro: pool_inv_mono)
  have "length (tracked (fst ?r)) \<le> 3"
    using proceed_tracked_le [of ?pl s] by simp
  moreover have "currentIndex (fst ?r) \<le> length (uris (fst ?r))"
    using proceed_index_le [of ?pl s] by simp
  moreover have "q < next_promise (snd ?r) \<and> settled (snd ?r) q = None"
    if "q \<in> set (tracked (fst ?r))" for q
    using that sched_inv_fresh [OF si, of q] unfolding proceed_tracked [of ?pl s] by auto
  ultimately have new: "pool_inv (snd ?r) (fst ?r)"
    unfolding pool_inv_def by simp
  show ?thesis
    unfolding triggerValidationForWorkspaceFiles_def service_inv_def
    using s' old new by (simp add: case_prod_beta pool_inv_def)
qed

lemma inv_step: "service_inv s \<Longrightarrow> service_inv (step w e s)"
  by (cases e)
    (simp_all add: inv_trigger inv_doValidation inv_clearDocument inv_onFileChanged inv_elapse)

lemma inv_run: "service_inv s \<Longrightarrow> service_inv (run es s)"
  by (induction es arbitrary: s) (auto simp: inv_step)

lemma inv_init: "service_inv init"
  by (simp add: service_inv_def sched_inv_init) (simp add: init_def)

lemma inv_reachable: "service_inv (run es init)"
  by (rule inv_run [OF inv_init])

lemma at_most_one_timer:
  assumes "sched_inv s"
  shows "length (filter (\<lambda>t. t_uri t = u) (timers s)) \<le> 1"
proof -
  let ?xs = "filter (\<lambda>t. t_uri t = u) (timers s)"
  have d: "distinct ?xs"
    using sched_inv_distinct(1) [OF assms] by (simp add: distinct_map)
  have same: "x = y" if "x \<in> set ?xs" "y \<in> set ?xs" for x y
    using that sched_inv_same_uri [OF assms, of x y] by simp
  show ?thesis
  proof (cases ?xs)
    case Nil
    then show ?thesis by simp
  next
    case (Cons x xs')
    show ?thesis
    proof (cases xs')
      case Nil
      with Cons show ?thesis by simp
    next
      case (Cons y ys)
      with \<open>?xs = x # xs'\<close> same [of x y] d show ?thesis by auto
    qed
  qed
qed

section \<open>The request dispatcher: properties\<close>

text \<open>
  Claim C8. For every completion item and whatever the delegate answers, \<^verbatim>\<open>doResolve\<close>
  calls the resolve delegate exactly once, sends exactly one analytics event, which
  carries the label of the item and its document type when the item has one, and returns
  the delegate's own result, fulfilled or rejected.
\<close>

theorem doResolve_once:
  "fst (doResolve w completionItem) = completer_doResolve w completionItem \<and>
   filter is_CompleterDoResolve (snd (doResolve w completionItem)) =
     [CompleterDoResolve completionItem] \<and>
   filter is_SendAnalytics (snd (doResolve w completionItem)) =
     [SendAnalytics ''resolveCompletion''
        [(''label'', Some (item_label completionItem)),
         (''documentType'', Option.bind (item_data completionItem) data_documentType)]]"
  by (cases "item_data completionItem") (simp_all add: doResolve_def)

theorem doResolve_once_witness:
  "fst (doResolve resolve_fails_world example_item) = Inl (Error ''boom'') \<and>
   filter is_CompleterDoResolve (snd (doResolve resolve_fails_world example_item)) =
     [CompleterDoResolve example_item] \<and>
   filter is_SendAnalytics (snd (doResolve resolve_fails_world example_item)) =
     [SendAnalytics ''resolveCompletion''
        [(''label'', Some ''AWS::S3::Bucket''), (''documentType'', Some ''SAM'')]]"
  using doResolve_once [of resolve_fails_world example_item]
  by (simp add: resolve_fails_world_def example_world_def example_item_def)

text \<open>
  Claim C4. The claim has \<^verbatim>\<open>findReferences\<close> answer a structured error whenever the
  document cannot be obtained. The code awaits \<^verbatim>\<open>getTextDocument\<close> before its \<^verbatim>\<open>try\<close> block:
  when that promise is rejected, the promise of \<^verbatim>\<open>findReferences\<close> is rejected with the
  same error, no exception is reported and no \<^verbatim>\<open>ResponseError\<close> is built. The theorem
  evaluates the code in a world whose document service rejects.
\<close>

theorem findReferences_document_rejected:
  "findReferences unreadable_world example_params =
     (Inl (Error ''ENOENT''), [GetTextDocument ''a.yaml''])"
  by (simp add: findReferences_def unreadable_world_def example_world_def example_params_def)

text \<open>The rejection in general.\<close>

lemma findReferences_propagates:
  "getTextDocument w (rp_uri referenceParams) = Inl err \<Longrightarrow>
     findReferences w referenceParams = (Inl err, [GetTextDocument (rp_uri referenceParams)])"
  by (simp add: findReferences_def)

text \<open>In the same world the sibling \<^verbatim>\<open>findDefinitions\<close>, whose awaits are inside the
  \<^verbatim>\<open>try\<close> block, reports the exception and answers the structured error.\<close>

lemma findDefinitions_document_rejected:
  "findDefinitions unreadable_world example_params =
     (Inr (Inr (ResponseError 1 ''ENOENT'')),
      [GetTextDocument ''a.yaml'', SendException (Error ''ENOENT'')])"
  by (simp add: findDefinitions_def unreadable_world_def example_world_def example_params_def
      catch_ResponseError_def)

text \<open>Once the document promise is fulfilled (with a document or with \<^verbatim>\<open>undefined\<close>),
  \<^verbatim>\<open>findReferences\<close> is never rejected: a failure of the parsed representation or of the
  engine gives the structured error with the caught message.\<close>

lemma findReferences_fallback:
  "getTextDocument w (rp_uri referenceParams) = Inr dopt \<Longrightarrow>
     (\<exists>locations. fst (findReferences w referenceParams) = Inr (Inl locations)) \<or>
     (\<exists>err. findReferences w referenceParams =
        (Inr (Inr (ResponseError 1 (message err))),
         butlast (snd (findReferences w referenceParams)) @ [SendException err]))"
  by (auto simp: findReferences_def catch_ResponseError_def split: option.splits sum.splits)

section \<open>The validation routine and the document operations: properties\<close>

lemma only_timer_calls_refl: "only_timer_calls s s"
  by (simp add: only_timer_calls_def)

lemma only_timer_calls_doValidation:
  "only_timer_calls s s' \<Longrightarrow> only_timer_calls s (snd (doValidation v s'))"
  by (auto simp: only_timer_calls_def trace_doValidation split: option.splits)

lemma catch_fulfilled [simp]: "catch_sendException (Inr v) = (Inr v, [])"
  by (simp add: catch_sendException_def)

lemma emit_Nil [simp]: "emit [] s = s"
  by (simp add: emit_def)

lemma trace_settle_pools: "only_timer_calls s (snd (settle_pools p (Inr ()) pls s))"
  by (rule settle_pools_preserves [where P = "only_timer_calls s"])
    (simp_all add: only_timer_calls_refl only_timer_calls_doValidation)

lemma trace_fire:
  assumes "t \<in> set (timers s)"
  shows "\<exists>cs. trace (fire w t s) =
           trace s @ Validate (t_uri t) # snd (validate w (t_uri t))
             @ snd (promiseRejectionHandler (fst (validate w (t_uri t)))) @ cs \<and>
           (\<forall>c \<in> set cs. is_timer_call c)"
  using trace_settle_pools [of "fired w t s" "t_promise t" "pools s"]
  unfolding fire_armed [OF assms] only_timer_calls_def
  by (auto simp: fired_def)

lemma settled_fire:
  assumes "t \<in> set (timers s)"
  shows "settled (fire w t s) = (settled s)(t_promise t \<mapsto> fst (validate w (t_uri t)))"
  using settle_pools_frame [of "t_promise t" "Inr ()" "pools s" "fired w t s"]
  unfolding fire_armed [OF assms] by simp

text \<open>The promise of \<^verbatim>\<open>validate\<close> is rejected in one case only, the rejection of the document
  fetch, which is awaited before the \<^verbatim>\<open>try\<close> block; the wrapper of \<^verbatim>\<open>doValidation\<close> then
  reports it to the exception sink.\<close>

lemma validate_rejected_iff:
  "fst (validate w u) = Inl err \<longleftrightarrow> getTextDocument w u = Inl err"
  by (auto simp: validate_def split: sum.splits option.splits)

text \<open>
  Inside the \<^verbatim>\<open>try\<close> block. In a run that has obtained a document with non-empty text,
  when the parsed representation or the validation engine fails with \<open>err\<close>, the routine
  \<^verbatim>\<open>validate\<close> is fulfilled (nothing is thrown out of it), the routine itself publishes no
  diagnostics, and it sends the notification \<^verbatim>\<open>custom/cfn-lint-installation-error\<close> exactly
  once when \<open>err\<close> is a \<^verbatim>\<open>CfnLintFailedToExecuteError\<close> and not at all otherwise. In the
  debounced run, the timer callback of the URI then fulfils the promise of \<^verbatim>\<open>doValidation\<close>,
  and nothing is reported to the exception sink.
\<close>

lemma validate_guarded_failures:
  "getTextDocument w u = Inr (Some d) \<and> getText d \<noteq> [] \<and>
   (getYamlDocument w (doc_uri d) = Inl err \<or>
    (getYamlDocument w (doc_uri d) = Inr y \<and> validation_doValidation w d y = Inl err)) \<longrightarrow>
     fst (validate w u) = Inr () \<and>
     filter is_SendDiagnostics (snd (validate w u)) = [] \<and>
     filter is_SendNotification (snd (validate w u)) =
       (if isCfnLintFailedToExecuteError err
        then [SendNotification ''custom/cfn-lint-installation-error''] else []) \<and>
     (t \<in> set (timers s) \<and> t_uri t = u \<longrightarrow>
        settled (fire w t s) (t_promise t) = Some (Inr ()) \<and>
        filter is_SendException (drop (length (trace s)) (trace (fire w t s))) = [])"
proof (intro impI, elim conjE)
  assume d: "getTextDocument w u = Inr (Some d)" and ne: "getText d \<noteq> []"
    and fail: "getYamlDocument w (doc_uri d) = Inl err \<or>
      (getYamlDocument w (doc_uri d) = Inr y \<and> validation_doValidation w d y = Inl err)"
  have a: "fst (validate w u) = Inr ()"
    using d ne fail by (auto simp: validate_def)
  have b: "filter is_SendDiagnostics (snd (validate w u)) = []"
    using d ne fail by (auto simp: validate_def validate_catch_def)
  have c: "filter is_SendNotification (snd (validate w u)) =
       (if isCfnLintFailedToExecuteError err
        then [SendNotification ''custom/cfn-lint-installation-error''] else [])"
    using d ne fail by (auto simp: validate_def validate_catch_def)
  have e: "\<not> is_SendException x" if "x \<in> set (snd (validate w u))" for x
    using that d ne fail by (auto simp: validate_def validate_catch_def split: if_splits)
  have f: "settled (fire w t s) (t_promise t) = Some (Inr ()) \<and>
        filter is_SendException (drop (length (trace s)) (trace (fire w t s))) = []"
    if armed: "t \<in> set (timers s)" and uri: "t_uri t = u"
  proof -
    from trace_fire [OF armed, of w] obtain cs where
      cs: "trace (fire w t s) = trace s @ Validate u # snd (validate w u)
             @ snd (promiseRejectionHandler (fst (validate w u))) @ cs"
        "\<forall>c \<in> set cs. is_timer_call c"
      unfolding uri by blast
    have "\<not> is_SendException c" if "c \<in> set cs" for c
      using cs(2) that by (cases c) auto
    then have "filter is_SendException cs = []" by (simp add: filter_empty_conv)
    moreover have "filter is_SendException (snd (validate w u)) = []"
      using e by (simp add: filter_empty_conv)
    ultimately show ?thesis
      using settled_fire [OF armed, of w] uri a cs(1)
      by (simp add: promiseRejectionHandler_def)
  qed
  from a b c f show "fst (validate w u) = Inr () \<and>
     filter is_SendDiagnostics (snd (validate w u)) = [] \<and>
     filter is_SendNotification (snd (validate w u)) =
       (if isCfnLintFailedToExecuteError err
        then [SendNotification ''custom/cfn-lint-installation-error''] else []) \<and>
     (t \<in> set (timers s) \<and> t_uri t = u \<longrightarrow>
        settled (fire w t s) (t_promise t) = Some (Inr ()) \<and>
        filter is_SendException (drop (length (trace s)) (trace (fire w t s))) = [])"
    by blast
qed

lemma armed_once_eq:
  "armed_once = init\<lparr>pendingValidationRequests := [''a.yaml'' \<mapsto> 0], timers := [timer0],
     next_handle := 1, next_promise := 1, trace := [SetTimeout 0 ''a.yaml'' 200]\<rparr>"
  by (simp add: armed_once_def timer0_def doValidation_def cleanPendingValidation_def
      setTimeout_def emit_def init_def VALIDATION_DELAY_MS_def)

lemma fire_no_pools:
  "t \<in> set (timers s) \<Longrightarrow> pools s = [] \<Longrightarrow> fire w t s = fired w t s"
  by (simp add: fire_armed fired_def)

lemma validate_guarded_failures_example:
  "getTextDocument cfn_lint_missing_world ''a.yaml'' = Inr (Some \<lparr>doc_uri = ''a.yaml'', getText = ''a: 1''\<rparr>) \<and>
   validate cfn_lint_missing_world ''a.yaml'' =
     (Inr (), [GetTextDocument ''a.yaml'', GetYamlDocument ''a.yaml'',
        SendAnalytics ''validateDocument'' [(''documentType'', Some ''SAM'')],
        ValidationDoValidation ''a.yaml'',
        SendNotification ''custom/cfn-lint-installation-error'']) \<and>
   filter is_SendNotification (snd (validate cfn_lint_missing_world ''a.yaml'')) =
     [SendNotification ''custom/cfn-lint-installation-error''] \<and>
   timer0 \<in> set (timers armed_once) \<and>
   settled (fire cfn_lint_missing_world timer0 armed_once) 0 = Some (Inr ())"
  using validate_guarded_failures [of cfn_lint_missing_world "''a.yaml''"
      "\<lparr>doc_uri = ''a.yaml'', getText = ''a: 1''\<rparr>" "CfnLintFailedToExecuteError ''cfn-lint not found''"
      "\<lparr>yaml_documentType = ''SAM''\<rparr>" timer0 armed_once]
  by (simp add: cfn_lint_missing_world_def example_world_def validate_def validate_catch_def
      armed_once_eq timer0_def)

text \<open>The rejection of the document fetch leaves \<^verbatim>\<open>validate\<close> as it came.\<close>

lemma validate_propagates:
  "getTextDocument w u = Inl err \<Longrightarrow> validate w u = (Inl err, [GetTextDocument u])"
  by (simp add: validate_def)

text \<open>In the debounced run the callback of the timer passes it to \<^verbatim>\<open>reject\<close>: the promise
  of \<^verbatim>\<open>doValidation\<close> is rejected with the same error, no notification is sent, and the
  wrapper of \<^verbatim>\<open>doValidation\<close> reports the error to the exception sink.\<close>

lemma fire_document_rejected:
  assumes "getTextDocument w u = Inl err" "t \<in> set (timers s)" "t_uri t = u"
  shows "settled (fire w t s) (t_promise t) = Some (Inl err) \<and>
         (\<exists>cs. trace (fire w t s) =
                  trace s @ [Validate u, GetTextDocument u, SendException err] @ cs \<and>
                (\<forall>c \<in> set cs. is_timer_call c))"
  using trace_fire [OF assms(2), of w] settled_fire [OF assms(2), of w]
  unfolding assms(3) validate_propagates [OF assms(1)]
  by (simp add: promiseRejectionHandler_def)

text \<open>One call of \<^verbatim>\<open>doValidation\<close> on \<^verbatim>\<open>a.yaml\<close> in a fresh service, then 200 ms: the
  timer of the call fires.\<close>

lemma debounced_run_eq:
  "run [(w, DoValidation ''a.yaml''), (w, Elapse 200)] init =
     fire w timer0 (armed_once\<lparr>now := 200\<rparr>)"
  by (simp add: armed_once_def [symmetric] elapse_def) (simp add: armed_once_eq init_def timer0_def)


text \<open>The calls of that run: the error ends in the exception sink, by the wrapper of
  \<^verbatim>\<open>doValidation\<close>; no diagnostics are published and no notification is sent.\<close>

lemma validate_document_rejected_reported:
  "trace (run [(unreadable_world, DoValidation ''a.yaml''), (unreadable_world, Elapse 200)] init) =
     [SetTimeout 0 ''a.yaml'' 200, Validate ''a.yaml'', GetTextDocument ''a.yaml'',
      SendException (Error ''ENOENT'')]"
proof -
  have v: "validate unreadable_world ''a.yaml'' =
      (Inl (Error ''ENOENT''), [GetTextDocument ''a.yaml''])"
    by (simp add: validate_def unreadable_world_def example_world_def)
  show ?thesis
    unfolding debounced_run_eq
    by (simp add: armed_once_eq fire_no_pools fired_def timer0_def init_def v
        promiseRejectionHandler_def)
qed

text \<open>
  Claim C6. When the document of the URI has a text of length 0, \<^verbatim>\<open>validate\<close> fetches
  the document, publishes the empty diagnostics for the URI of the document and returns:
  it asks for no parsed representation, sends no analytics event, does not call the
  validation engine and calls neither the relations nor the schema service. The case goes
  through the debounce: the call of \<^verbatim>\<open>doValidation\<close> publishes nothing, and the
  publication is made when the timer of the URI fires (after it, only calls on timers
  follow, from pools pulling their next URI).
\<close>

theorem validate_empty_text:
  "getTextDocument w u = Inr (Some d) \<and> length (getText d) = 0 \<longrightarrow>
     validate w u = (Inr (), [GetTextDocument u, SendDiagnostics (doc_uri d) []]) \<and>
     filter is_SendDiagnostics (drop (length (trace s)) (trace (snd (doValidation u s)))) = [] \<and>
     (t \<in> set (timers s) \<and> t_uri t = u \<longrightarrow>
        (\<exists>cs. trace (fire w t s) =
                trace s @ [Validate u, GetTextDocument u, SendDiagnostics (doc_uri d) []] @ cs \<and>
              (\<forall>c \<in> set cs. is_timer_call c)))"
proof (intro impI, elim conjE)
  assume d: "getTextDocument w u = Inr (Some d)" and e: "length (getText d) = 0"
  have v: "validate w u = (Inr (), [GetTextDocument u, SendDiagnostics (doc_uri d) []])"
    using d e by (simp add: validate_def)
  have dv: "filter is_SendDiagnostics (drop (length (trace s)) (trace (snd (doValidation u s)))) = []"
    by (simp add: trace_doValidation split: option.splits)
  have f: "\<exists>cs. trace (fire w t s) =
                trace s @ [Validate u, GetTextDocument u, SendDiagnostics (doc_uri d) []] @ cs \<and>
              (\<forall>c \<in> set cs. is_timer_call c)"
    if armed: "t \<in> set (timers s)" and uri: "t_uri t = u"
    using trace_fire [OF armed, of w] unfolding uri v
    by (simp add: promiseRejectionHandler_def)
  from v dv f show "validate w u = (Inr (), [GetTextDocument u, SendDiagnostics (doc_uri d) []]) \<and>
     filter is_SendDiagnostics (drop (length (trace s)) (trace (snd (doValidation u s)))) = [] \<and>
     (t \<in> set (timers s) \<and> t_uri t = u \<longrightarrow>
        (\<exists>cs. trace (fire w t s) =
                trace s @ [Validate u, GetTextDocument u, SendDiagnostics (doc_uri d) []] @ cs \<and>
              (\<forall>c \<in> set cs. is_timer_call c)))"
    by blast
qed

lemma fire_timer0:
  "fire w timer0 armed_once =
     init\<lparr>settled := [0 \<mapsto> fst (validate w ''a.yaml'')], next_handle := 1, next_promise := 1,
       trace := SetTimeout 0 ''a.yaml'' 200 # Validate ''a.yaml'' # snd (validate w ''a.yaml'')
         @ snd (promiseRejectionHandler (fst (validate w ''a.yaml'')))\<rparr>"
  by (simp add: armed_once_eq fire_no_pools fired_def timer0_def init_def)

theorem validate_empty_text_witness:
  "validate empty_document_world ''a.yaml'' =
     (Inr (), [GetTextDocument ''a.yaml'', SendDiagnostics ''a.yaml'' []]) \<and>
   trace armed_once = [SetTimeout 0 ''a.yaml'' 200] \<and>
   timer0 \<in> set (timers armed_once) \<and>
   trace (fire empty_document_world timer0 armed_once) =
     [SetTimeout 0 ''a.yaml'' 200, Validate ''a.yaml'', GetTextDocument ''a.yaml'',
      SendDiagnostics ''a.yaml'' []]"
proof -
  have v: "validate empty_document_world ''a.yaml'' =
      (Inr (), [GetTextDocument ''a.yaml'', SendDiagnostics ''a.yaml'' []])"
    by (simp add: empty_document_world_def example_world_def validate_def)
  have a: "trace armed_once = [SetTimeout 0 ''a.yaml'' 200]" "timer0 \<in> set (timers armed_once)"
    by (simp_all add: armed_once_eq)
  have f: "trace (fire empty_document_world timer0 armed_once) =
     [SetTimeout 0 ''a.yaml'' 200, Validate ''a.yaml'', GetTextDocument ''a.yaml'',
      SendDiagnostics ''a.yaml'' []]"
    by (simp add: fire_timer0 v promiseRejectionHandler_def)
  from v a f show ?thesis
    using validate_empty_text [of empty_document_world "''a.yaml''"
      "\<lparr>doc_uri = ''a.yaml'', getText = []\<rparr>" armed_once timer0]
    by simp
qed

text \<open>
  Claim C10. When the document service is fulfilled with no document, \<^verbatim>\<open>validate\<close>
  makes one call, the fetch, and is fulfilled: no diagnostics, no engine, no relations, no
  schema fragments. In the debounced run the promise is fulfilled and the trace gets the
  invocation and the fetch (then only calls on timers, from pools pulling their next URI);
  with no pool listening, the state after the timer has fired is the state before it with
  the timer disarmed and the entry of the URI deleted, which the callback does before
  \<^verbatim>\<open>validate\<close> is entered, and the promise fulfilled.
\<close>

theorem validate_no_document:
  "getTextDocument w u = Inr None \<longrightarrow>
     validate w u = (Inr (), [GetTextDocument u]) \<and>
     (t \<in> set (timers s) \<and> t_uri t = u \<longrightarrow>
        settled (fire w t s) (t_promise t) = Some (Inr ()) \<and>
        (\<exists>cs. trace (fire w t s) = trace s @ [Validate u, GetTextDocument u] @ cs \<and>
              (\<forall>c \<in> set cs. is_timer_call c))) \<and>
     (t \<in> set (timers s) \<and> t_uri t = u \<and> pools s = [] \<longrightarrow>
        fire w t s =
          s\<lparr>timers := filter (\<lambda>x. handle x \<noteq> handle t) (timers s),
            pendingValidationRequests := (pendingValidationRequests s)(u := None),
            settled := (settled s)(t_promise t \<mapsto> Inr ()),
            trace := trace s @ [Validate u, GetTextDocument u]\<rparr>)"
proof
  assume d: "getTextDocument w u = Inr None"
  have v: "validate w u = (Inr (), [GetTextDocument u])"
    using d by (simp add: validate_def)
  have f: "settled (fire w t s) (t_promise t) = Some (Inr ()) \<and>
        (\<exists>cs. trace (fire w t s) = trace s @ [Validate u, GetTextDocument u] @ cs \<and>
              (\<forall>c \<in> set cs. is_timer_call c))"
    if armed: "t \<in> set (timers s)" and uri: "t_uri t = u"
    using trace_fire [OF armed, of w] settled_fire [OF armed, of w] unfolding uri v
    by (simp add: promiseRejectionHandler_def)
  have g: "fire w t s =
          s\<lparr>timers := filter (\<lambda>x. handle x \<noteq> handle t) (timers s),
            pendingValidationRequests := (pendingValidationRequests s)(u := None),
            settled := (settled s)(t_promise t \<mapsto> Inr ()),
            trace := trace s @ [Validate u, GetTextDocument u]\<rparr>"
    if armed: "t \<in> set (timers s)" and uri: "t_uri t = u" and np: "pools s = []"
    using v by (simp add: fire_no_pools [OF armed np] fired_def uri promiseRejectionHandler_def)
  from v f g show "validate w u = (Inr (), [GetTextDocument u]) \<and>
     (t \<in> set (timers s) \<and> t_uri t = u \<longrightarrow>
        settled (fire w t s) (t_promise t) = Some (Inr ()) \<and>
        (\<exists>cs. trace (fire w t s) = trace s @ [Validate u, GetTextDocument u] @ cs \<and>
              (\<forall>c \<in> set cs. is_timer_call c))) \<and>
     (t \<in> set (timers s) \<and> t_uri t = u \<and> pools s = [] \<longrightarrow>
        fire w t s =
          s\<lparr>timers := filter (\<lambda>x. handle x \<noteq> handle t) (timers s),
            pendingValidationRequests := (pendingValidationRequests s)(u := None),
            settled := (settled s)(t_promise t \<mapsto> Inr ()),
            trace := trace s @ [Validate u, GetTextDocument u]\<rparr>)"
    by blast
qed

theorem validate_no_document_witness:
  "getTextDocument no_document_world ''a.yaml'' = Inr None \<and>
   validate no_document_world ''a.yaml'' = (Inr (), [GetTextDocument ''a.yaml'']) \<and>
   timer0 \<in> set (timers armed_once) \<and> pools armed_once = [] \<and>
   fire no_document_world timer0 armed_once =
     init\<lparr>settled := [0 \<mapsto> Inr ()], next_handle := 1, next_promise := 1,
       trace := [SetTimeout 0 ''a.yaml'' 200, Validate ''a.yaml'', GetTextDocument ''a.yaml'']\<rparr>"
proof -
  have d: "getTextDocument no_document_world ''a.yaml'' = Inr None"
    by (simp add: no_document_world_def)
  have v: "validate no_document_world ''a.yaml'' = (Inr (), [GetTextDocument ''a.yaml''])"
    by (simp add: d validate_def)
  have a: "timer0 \<in> set (timers armed_once)" "pools armed_once = []"
    by (simp_all add: armed_once_eq init_def)
  have f: "fire no_document_world timer0 armed_once =
     init\<lparr>settled := [0 \<mapsto> Inr ()], next_handle := 1, next_promise := 1,
       trace := [SetTimeout 0 ''a.yaml'' 200, Validate ''a.yaml'', GetTextDocument ''a.yaml'']\<rparr>"
    by (simp add: fire_timer0 v promiseRejectionHandler_def)
  from d v a f show ?thesis
    using validate_no_document [of no_document_world "''a.yaml''" timer0 armed_once]
    by simp
qed

lemma run_append: "run (es @ es') s = run es' (run es s)"
  by (induction es arbitrary: s) auto

lemma timers_clearDocument:
  "timers (clearDocument w u s) = timers (cleanPendingValidation u s)"
  and pending_clearDocument:
  "pendingValidationRequests (clearDocument w u s) = (pendingValidationRequests s)(u := None)"
  and settled_clearDocument: "settled (clearDocument w u s) = settled s"
  and pools_clearDocument: "pools (clearDocument w u s) = pools s"
  and trace_clearDocument:
  "trace (clearDocument w u s) =
     trace s @ [GetChildrenUris u]
       @ (case pendingValidationRequests s u of None \<Rightarrow> [] | Some h \<Rightarrow> [ClearTimeout h])
       @ [DocumentServiceClear u, SendDiagnostics u []]
       @ map ClearPartialSchema (case getChildrenUris w u of None \<Rightarrow> [] | Some cs \<Rightarrow> cs)"
  by (simp_all add: clearDocument_def Let_def trace_cleanPendingValidation timers_clean
      clearPartialSchemas_def split: option.splits)

text \<open>
  Claim C7. In every reachable state, \<^verbatim>\<open>clearDocument\<close> reads the children of the URI,
  cancels the pending request of the URI if there is one, clears the document in the
  document service, publishes the empty diagnostics for the URI, and clears the partial
  schema of each recorded child, in this order and with no other call (none to
  \<^verbatim>\<open>clearRelations\<close>, none to \<^verbatim>\<open>setTimeout\<close>). Afterwards the URI has no entry and no armed
  timer, and the timers of all other URIs, the children among them, are the same as
  before.
\<close>

theorem clearDocument_effects:
  "trace (clearDocument w u (run es init)) =
     trace (run es init) @ [GetChildrenUris u]
       @ (case pendingValidationRequests (run es init) u of None \<Rightarrow> [] | Some h \<Rightarrow> [ClearTimeout h])
       @ [DocumentServiceClear u, SendDiagnostics u []]
       @ map ClearPartialSchema (case getChildrenUris w u of None \<Rightarrow> [] | Some cs \<Rightarrow> cs) \<and>
   pendingValidationRequests (clearDocument w u (run es init)) =
     (pendingValidationRequests (run es init))(u := None) \<and>
   timers (clearDocument w u (run es init)) = filter (\<lambda>t. t_uri t \<noteq> u) (timers (run es init)) \<and>
   settled (clearDocument w u (run es init)) = settled (run es init) \<and>
   pools (clearDocument w u (run es init)) = pools (run es init)"
proof -
  have "sched_inv (run es init)"
    using inv_reachable [of es] by (simp add: service_inv_def)
  then show ?thesis
    by (simp add: timers_clearDocument pending_clearDocument settled_clearDocument
        pools_clearDocument trace_clearDocument timers_clean_inv)
qed

theorem clearDocument_effects_witness:
  "trace (clearDocument example_world ''p.yaml'' (run [(example_world, DoValidation ''p.yaml'')] init)) =
     [SetTimeout 0 ''p.yaml'' 200, GetChildrenUris ''p.yaml'', ClearTimeout 0,
      DocumentServiceClear ''p.yaml'', SendDiagnostics ''p.yaml'' [],
      ClearPartialSchema ''c1.yaml'', ClearPartialSchema ''c2.yaml''] \<and>
   timers (clearDocument example_world ''p.yaml'' (run [(example_world, DoValidation ''p.yaml'')] init)) = [] \<and>
   pendingValidationRequests
     (clearDocument example_world ''p.yaml'' (run [(example_world, DoValidation ''p.yaml'')] init))
     ''p.yaml'' = None"
  using clearDocument_effects [of example_world "''p.yaml''" "[(example_world, DoValidation ''p.yaml'')]"]
  by (simp add: example_world_def init_def doValidation_def cleanPendingValidation_def
      setTimeout_def emit_def VALIDATION_DELAY_MS_def)

section \<open>A superseded promise never settles\<close>

lemma dead_emit [simp]: "dead p (emit cs s) = dead p s"
  by (simp add: dead_def)

lemma dead_pools [simp]: "dead p (s\<lparr>pools := ps\<rparr>) = dead p s"
  by (simp add: dead_def)

lemma timers_clean_subset: "set (timers (cleanPendingValidation u s)) \<subseteq> set (timers s)"
  by (auto simp: timers_clean split: option.splits)

lemma dead_clean: "dead p s \<Longrightarrow> dead p (cleanPendingValidation u s)"
  using timers_clean_subset [of u s] by (auto simp: dead_def)

lemma dead_doValidation: "dead p s \<Longrightarrow> dead p (snd (doValidation u s))"
  using timers_clean_subset [of u s] by (auto simp: dead_def timers_doValidation)

lemma dead_fire:
  assumes "dead p s"
  shows "dead p (fire w t s)"
proof (cases "t \<in> set (timers s)")
  case False
  with assms show ?thesis by (simp add: fire_disarmed)
next
  case True
  with assms have "t_promise t \<noteq> p" by (auto simp: dead_def)
  with assms have "dead p (fired w t s)" by (auto simp: dead_def)
  then have "dead p (snd (settle_pools (t_promise t) (Inr ()) (pools s) (fired w t s)))"
    by (rule settle_pools_preserves) (simp_all add: dead_doValidation)
  then show ?thesis by (simp add: fire_armed [OF True])
qed

lemma dead_elapse:
  assumes "dead p s"
  shows "dead p (elapse w d s)"
proof -
  have "dead p (s\<lparr>now := now s + d\<rparr>)"
    using assms by (simp add: dead_def)
  then show ?thesis
    unfolding elapse_def Let_def
    by (rule fold_preserves [where P = "dead p" and f = "fire w", rotated]) (rule dead_fire)
qed

lemma dead_clearDocument: "dead p s \<Longrightarrow> dead p (clearDocument w u s)"
  by (simp add: clearDocument_def Let_def dead_clean split: option.splits)

lemma dead_onFileChanged: "dead p s \<Longrightarrow> dead p (snd (onFileChanged w u s))"
  by (simp add: onFileChanged_def Let_def dead_doValidation split: option.splits)

lemma dead_trigger: "dead p s \<Longrightarrow> dead p (triggerValidationForWorkspaceFiles us s)"
proof -
  assume "dead p s"
  then have "dead p (snd (proceed \<lparr>uris = us, currentIndex = 0, concurrency = 3, tracked = []\<rparr> s))"
    by (rule proceed_preserves) (simp add: dead_doValidation)
  then show ?thesis by (simp add: triggerValidationForWorkspaceFiles_def case_prod_beta)
qed

lemma dead_step: "dead p s \<Longrightarrow> dead p (step w e s)"
  by (cases e)
    (simp_all add: dead_trigger dead_doValidation dead_clearDocument dead_onFileChanged dead_elapse)

lemma dead_run: "dead p s \<Longrightarrow> dead p (run es s)"
  by (induction es arbitrary: s) (auto simp: dead_step)

lemma cancel_makes_dead:
  assumes "sched_inv s" "t \<in> set (timers s)"
  shows "dead (t_promise t) (cleanPendingValidation (t_uri t) s)"
proof -
  have inj: "inj_on t_promise (set (timers s))"
    using assms(1) by (simp add: sched_inv_def distinct_map)
  have "t_promise x \<noteq> t_promise t" if "x \<in> set (timers s)" "t_uri x \<noteq> t_uri t" for x
    using that inj assms(2) by (auto dest: inj_onD)
  then show ?thesis
    using sched_inv_bounds(2,3) [OF assms]
    by (simp add: dead_def timers_clean_inv [OF assms(1)])
qed

lemma doValidation_after_clean:
  "snd (doValidation u (cleanPendingValidation u s)) = snd (doValidation u s)"
  by (simp add: doValidation_def cleanPendingValidation_def Let_def clearTimeout_def emit_def
      split: option.splits)

lemma clearDocument_after_clean:
  "dead p (cleanPendingValidation u s) \<Longrightarrow> dead p (clearDocument w u s)"
  by (simp add: clearDocument_def Let_def dead_def timers_clean split: option.splits)

lemma dead_clean_emit:
  "dead p (cleanPendingValidation u (emit cs s)) = dead p (cleanPendingValidation u s)"
  by (simp add: dead_def timers_clean split: option.splits)

lemma onFileChanged_doValidation:
  "\<exists>cs. snd (onFileChanged w u s) = snd (doValidation u (emit cs s))"
proof (cases "getChildrenUris w u")
  case None
  then show ?thesis by (auto simp: onFileChanged_def Let_def)
next
  case (Some children)
  show ?thesis
  proof (cases "children = []")
    case True
    with Some show ?thesis by (auto simp: onFileChanged_def Let_def)
  next
    case False
    with Some have "snd (onFileChanged w u s) =
        snd (doValidation u (emit ([GetChildrenUris u] @ clearPartialSchemas children @ [ClearRelations u]) s))"
      by (simp add: onFileChanged_def Let_def emit_def)
    then show ?thesis by blast
  qed
qed

lemma cancel_event_makes_dead:
  assumes "sched_inv s" "t \<in> set (timers s)" "e \<in> cancels (t_uri t)"
  shows "dead (t_promise t) (step w e s)"
proof -
  note c = cancel_makes_dead [OF assms(1,2)]
  have dv: "dead (t_promise t) (snd (doValidation (t_uri t) s'))"
    if "dead (t_promise t) (cleanPendingValidation (t_uri t) s')" for s'
    using dead_doValidation [OF that, of "t_uri t"] by (simp add: doValidation_after_clean)
  obtain cs where "snd (onFileChanged w (t_uri t) s) = snd (doValidation (t_uri t) (emit cs s))"
    using onFileChanged_doValidation by blast
  then have "dead (t_promise t) (snd (onFileChanged w (t_uri t) s))"
    using dv [of "emit cs s"] c by (simp add: dead_clean_emit)
  with assms(3) c show ?thesis
    by (auto simp: cancels_def intro: dv clearDocument_after_clean)
qed

text \<open>
  Claim C9. Take any reachable state, a call of \<^verbatim>\<open>doValidation\<close> on \<open>u\<close> in it, and any
  events after which the timer of that call is still armed. When the next event cancels
  the pending request of \<open>u\<close> (a later \<^verbatim>\<open>doValidation\<close> or \<^verbatim>\<open>clearDocument\<close> on \<open>u\<close>,
  directly or from a lifecycle callback), the promise of the first call has not settled,
  and it has not settled after any further events either: it is never resolved and never
  rejected.
\<close>

theorem superseded_promise_never_settles:
  "\<lparr>handle = next_handle (run es0 init), due = now (run es0 init) + VALIDATION_DELAY_MS,
      t_uri = u, t_promise = fst (doValidation u (run es0 init))\<rparr>
     \<in> set (timers (run es1 (snd (doValidation u (run es0 init))))) \<and>
   e \<in> cancels u \<longrightarrow>
     settled (run es2 (step w e (run es1 (snd (doValidation u (run es0 init))))))
       (fst (doValidation u (run es0 init))) = None"
proof (intro impI, elim conjE)
  let ?s1 = "snd (doValidation u (run es0 init))"
  let ?t = "\<lparr>handle = next_handle (run es0 init), due = now (run es0 init) + VALIDATION_DELAY_MS,
      t_uri = u, t_promise = fst (doValidation u (run es0 init))\<rparr>"
  assume armed: "?t \<in> set (timers (run es1 ?s1))" and e: "e \<in> cancels u"
  have "service_inv (run es1 ?s1)"
    by (intro inv_run inv_doValidation inv_reachable)
  then have "sched_inv (run es1 ?s1)" by (simp add: service_inv_def)
  from cancel_event_makes_dead [OF this armed, of e w] e
  have "dead (fst (doValidation u (run es0 init))) (step w e (run es1 ?s1))" by simp
  then have "dead (fst (doValidation u (run es0 init))) (run es2 (step w e (run es1 ?s1)))"
    by (rule dead_run)
  then show "settled (run es2 (step w e (run es1 ?s1))) (fst (doValidation u (run es0 init))) = None"
    by (simp add: dead_def)
qed

theorem superseded_promise_never_settles_witness:
  "\<lparr>handle = next_handle (run [] init), due = now (run [] init) + VALIDATION_DELAY_MS,
      t_uri = ''a.yaml'', t_promise = fst (doValidation ''a.yaml'' (run [] init))\<rparr>
     \<in> set (timers (run [(example_world, Elapse 100)] (snd (doValidation ''a.yaml'' (run [] init))))) \<and>
   DoValidation ''a.yaml'' \<in> cancels ''a.yaml'' \<and>
   fst (doValidation ''a.yaml'' (run [] init)) = 0 \<and>
   settled (run [(example_world, Elapse 1000)] (step example_world (DoValidation ''a.yaml'')
       (run [(example_world, Elapse 100)] (snd (doValidation ''a.yaml'' (run [] init)))))) 0 = None \<and>
   settled (run [(example_world, Elapse 1000)] (step example_world (DoValidation ''a.yaml'')
       (run [(example_world, Elapse 100)] (snd (doValidation ''a.yaml'' (run [] init)))))) 1 = Some (Inr ())"
proof -
  have s1: "snd (doValidation ''a.yaml'' (run [] init)) = armed_once"
    by (simp add: armed_once_def)
  have s2: "run [(example_world, Elapse 100)] armed_once = armed_once\<lparr>now := 100\<rparr>"
    by (simp add: armed_once_eq elapse_def init_def timer0_def)
  have a: "\<lparr>handle = next_handle (run [] init), due = now (run [] init) + VALIDATION_DELAY_MS,
      t_uri = ''a.yaml'', t_promise = fst (doValidation ''a.yaml'' (run [] init))\<rparr>
     \<in> set (timers (run [(example_world, Elapse 100)] (snd (doValidation ''a.yaml'' (run [] init)))))"
    unfolding s1 s2 by (simp add: armed_once_eq timer0_def init_def VALIDATION_DELAY_MS_def)
  have c: "DoValidation ''a.yaml'' \<in> cancels ''a.yaml''" by (simp add: cancels_def)
  have p: "fst (doValidation ''a.yaml'' (run [] init)) = 0" by (simp add: init_def)
  have s3: "step example_world (DoValidation ''a.yaml'') (armed_once\<lparr>now := 100\<rparr>) =
      init\<lparr>now := 100, pendingValidationRequests := [''a.yaml'' \<mapsto> 1],
        timers := [\<lparr>handle = 1, due = 300, t_uri = ''a.yaml'', t_promise = 1\<rparr>],
        next_handle := 2, next_promise := 2,
        trace := [SetTimeout 0 ''a.yaml'' 200, ClearTimeout 0, SetTimeout 1 ''a.yaml'' 200]\<rparr>"
    by (simp add: armed_once_eq timer0_def doValidation_def cleanPendingValidation_def
        clearTimeout_def setTimeout_def emit_def init_def VALIDATION_DELAY_MS_def)
  have s4: "settled (run [(example_world, Elapse 1000)] (step example_world (DoValidation ''a.yaml'')
       (armed_once\<lparr>now := 100\<rparr>))) 1 = Some (Inr ())"
    unfolding s3
    by (simp add: elapse_def init_def fire_no_pools fired_def validate_def example_world_def)
  from a c p s4 show ?thesis
    using superseded_promise_never_settles [of "[]" "''a.yaml''" "[(example_world, Elapse 100)]"
        "DoValidation ''a.yaml''" "[(example_world, Elapse 1000)]" example_world]
    unfolding s1 s2 by simp
qed

section \<open>Debouncing\<close>

lemma count_list_append [simp]: "count_list (xs @ ys) x = count_list xs x + count_list ys x"
  by (induction xs) auto

lemma count_list_0: "x \<notin> set xs \<Longrightarrow> count_list xs x = 0"
  by (induction xs) auto

lemma validations_doValidation [simp]:
  "validations u (snd (doValidation v s)) = validations u s"
  by (simp add: validations_def trace_doValidation split: option.splits)

lemma validations_emit_Nil: "validations u (emit [] s) = validations u s"
  by simp

lemma uri_timers_doValidation:
  assumes "sched_inv s" "v \<noteq> u"
  shows "filter (\<lambda>t. t_uri t = u) (timers (snd (doValidation v s))) =
         filter (\<lambda>t. t_uri t = u) (timers s)"
proof -
  have "filter (\<lambda>t. t_uri t = u) (filter (\<lambda>t. t_uri t \<noteq> v) (timers s)) =
        filter (\<lambda>t. t_uri t = u) (timers s)"
    using assms(2) by (auto simp: filter_filter intro: filter_cong)
  then show ?thesis
    using assms(2) by (simp add: timers_doValidation timers_clean_inv [OF assms(1)])
qed

lemma calm_doValidation:
  "calm u X n s \<Longrightarrow> v \<noteq> u \<Longrightarrow> calm u X n (snd (doValidation v s))"
  by (simp add: calm_def sched_inv_doValidation uri_timers_doValidation)

lemma validate_no_Validate: "Validate u \<notin> set (snd (validate w v))"
  by (auto simp: validate_def validate_catch_def split: sum.splits option.splits)

lemma wrapper_no_Validate: "Validate u \<notin> set (snd (promiseRejectionHandler r))"
  by (cases r) (simp_all add: promiseRejectionHandler_def)

lemma validations_fired:
  "validations u (fired w t s) = validations u s + (if t_uri t = u then 1 else 0)"
  by (simp add: validations_def fired_def count_list_0 validate_no_Validate wrapper_no_Validate)

lemma settle_pools_ahead:
  "(\<Union>pl \<in> set (fst (settle_pools p r pls s)). ahead pl) \<subseteq> (\<Union>pl \<in> set pls. ahead pl)"
proof (induction pls arbitrary: s)
  case Nil
  then show ?case by simp
next
  case (Cons pl pls)
  show ?case
    using pool_settled_ahead [of p r pl s] Cons.IH [of "snd (pool_settled p r pl s)"]
    by (auto simp: case_prod_beta)
qed

lemma quiet_fire: "quiet u s \<Longrightarrow> quiet u (fire w t s)"
proof (cases "t \<in> set (timers s)")
  case True
  assume "quiet u s"
  then show ?thesis
    using settle_pools_ahead [of "t_promise t" "Inr ()" "pools s" "fired w t s"]
    unfolding fire_armed [OF True] quiet_def by auto
qed (simp add: fire_disarmed)

lemma calm_fire_other:
  assumes "calm u X n s" "quiet u s" "t_uri t \<noteq> u"
  shows "calm u X n (fire w t s)"
proof (cases "t \<in> set (timers s)")
  case False
  with assms show ?thesis by (simp add: fire_disarmed)
next
  case True
  from assms(1) have si: "sched_inv s" by (simp add: calm_def)
  have "filter (\<lambda>x. t_uri x = u) (filter (\<lambda>x. t_uri x \<noteq> t_uri t) (timers s)) =
        filter (\<lambda>x. t_uri x = u) (timers s)"
    using assms(3) by (auto simp: filter_filter intro: filter_cong)
  then have "calm u X n (fired w t s)"
    using assms(1,3) unfolding calm_def timers_fired [OF si True]
    by (simp add: sched_inv_fired [OF si True] validations_fired)
  then have "calm u X n (snd (settle_pools (t_promise t) (Inr ()) (pools s) (fired w t s)))"
  proof (rule settle_pools_preserves)
    fix v s' assume "v \<in> (\<Union>pl \<in> set (pools s). ahead pl)" "calm u X n s'"
    with assms(2) show "calm u X n (snd (doValidation v s'))"
      by (auto simp: quiet_def intro: calm_doValidation)
  qed simp
  then show ?thesis
    unfolding fire_armed [OF True] by (simp add: calm_def validations_def)
qed

lemma calm_fold_other:
  assumes "calm u X n s" "quiet u s" "\<forall>t \<in> set ts. t_uri t \<noteq> u"
  shows "calm u X n (fold (fire w) ts s) \<and> quiet u (fold (fire w) ts s)"
  using assms
proof (induction ts arbitrary: s)
  case Nil
  then show ?case by simp
next
  case (Cons t ts)
  have "calm u X n (fire w t s)" "quiet u (fire w t s)"
    using Cons.prems by (auto intro: calm_fire_other quiet_fire)
  with Cons.IH [of "fire w t s"] Cons.prems(3) show ?case by simp
qed

lemma sched_inv_now: "sched_inv s \<Longrightarrow> now s \<le> k \<Longrightarrow> sched_inv (s\<lparr>now := k\<rparr>)"
  by (fastforce simp: sched_inv_def)

lemma calm_fire_own:
  assumes "calm u [t] n s" "quiet u s"
  shows "calm u [] (Suc n) (fire w t s) \<and>
         settled (fire w t s) = (settled s)(t_promise t \<mapsto> fst (validate w u))"
proof -
  from assms(1) have si: "sched_inv s" and ts: "filter (\<lambda>x. t_uri x = u) (timers s) = [t]"
    and n: "validations u s = n"
    by (simp_all add: calm_def)
  from ts have "t \<in> set (filter (\<lambda>x. t_uri x = u) (timers s))" by simp
  then have armed: "t \<in> set (timers s)" and uri: "t_uri t = u" by simp_all
  have "filter (\<lambda>x. t_uri x = u) (filter (\<lambda>x. t_uri x \<noteq> u) (timers s)) = []"
    by (simp add: filter_empty_conv)
  then have "calm u [] (Suc n) (fired w t s)"
    using n unfolding calm_def timers_fired [OF si armed] uri
    by (simp add: sched_inv_fired [OF si armed] validations_fired uri)
  then have "calm u [] (Suc n) (snd (settle_pools (t_promise t) (Inr ()) (pools s) (fired w t s)))"
  proof (rule settle_pools_preserves)
    fix v s' assume "v \<in> (\<Union>pl \<in> set (pools s). ahead pl)" "calm u [] (Suc n) s'"
    with assms(2) show "calm u [] (Suc n) (snd (doValidation v s'))"
      by (auto simp: quiet_def intro: calm_doValidation)
  qed simp
  then have "calm u [] (Suc n) (fire w t s)"
    unfolding fire_armed [OF armed] by (simp add: calm_def validations_def)
  with settled_fire [OF armed, of w] uri show ?thesis by simp
qed

lemma elapse_fold:
  "elapse w d s =
     fold (fire w) (filter (\<lambda>t. due t \<le> now s + d) (timers s)) (s\<lparr>now := now s + d\<rparr>)"
  by (simp add: elapse_def Let_def)

lemma calm_now: "calm u X n s \<Longrightarrow> now s \<le> k \<Longrightarrow> calm u X n (s\<lparr>now := k\<rparr>)"
  by (simp add: calm_def sched_inv_now validations_def)

lemma quiet_now: "quiet u (s\<lparr>now := k\<rparr>) = quiet u s"
  by (simp add: quiet_def)

lemma calm_doValidation_own:
  assumes "sched_inv s"
  shows "calm u [\<lparr>handle = next_handle s, due = now s + VALIDATION_DELAY_MS, t_uri = u,
                   t_promise = next_promise s\<rparr>] (validations u s) (snd (doValidation u s))"
  using assms
  by (simp add: calm_def sched_inv_doValidation timers_doValidation timers_clean_inv
      filter_empty_conv)

lemma debounce_first_window:
  assumes si: "sched_inv s0" and q: "quiet u s0" and d1: "d1 < VALIDATION_DELAY_MS"
  shows "calm u [\<lparr>handle = next_handle s0, due = now s0 + VALIDATION_DELAY_MS, t_uri = u,
                   t_promise = next_promise s0\<rparr>] (validations u s0)
           (elapse w1 d1 (snd (doValidation u s0))) \<and>
         quiet u (elapse w1 d1 (snd (doValidation u s0)))"
proof -
  let ?s1 = "snd (doValidation u s0)"
  let ?t1 = "\<lparr>handle = next_handle s0, due = now s0 + VALIDATION_DELAY_MS, t_uri = u,
                   t_promise = next_promise s0\<rparr>"
  have c1: "calm u [?t1] (validations u s0) ?s1"
    by (rule calm_doValidation_own [OF si])
  have q1: "quiet u ?s1" using q by (simp add: quiet_def)
  have due: "\<forall>t \<in> set (filter (\<lambda>t. due t \<le> now ?s1 + d1) (timers ?s1)). t_uri t \<noteq> u"
    using d1 by (auto simp: timers_doValidation timers_clean_inv [OF si])
  show ?thesis
    unfolding elapse_fold
    by (rule calm_fold_other) (use c1 q1 due in \<open>simp_all add: calm_now quiet_now\<close>)
qed

lemma debounce_second_window:
  assumes c: "calm u X n s2" and q: "quiet u s2" and d2: "VALIDATION_DELAY_MS \<le> d2"
  shows "validations u (elapse w2 d2 (snd (doValidation u s2))) = Suc n \<and>
         settled (elapse w2 d2 (snd (doValidation u s2))) (next_promise s2) =
           Some (fst (validate w2 u))"
proof -
  let ?s3 = "snd (doValidation u s2)"
  let ?t2 = "\<lparr>handle = next_handle s2, due = now s2 + VALIDATION_DELAY_MS, t_uri = u,
                t_promise = next_promise s2\<rparr>"
  let ?L = "filter (\<lambda>t. due t \<le> now s2 + d2) (filter (\<lambda>t. t_uri t \<noteq> u) (timers s2))"
  let ?s3' = "?s3\<lparr>now := now ?s3 + d2\<rparr>"
  from c have si: "sched_inv s2" by (simp add: calm_def)
  have "calm u [?t2] n ?s3"
    using calm_doValidation_own [OF si, of u] c by (simp add: calm_def)
  then have c3: "calm u [?t2] n ?s3'"
    by (rule calm_now) simp
  have q3: "quiet u ?s3'" using q by (simp add: quiet_def)
  have L: "filter (\<lambda>t. due t \<le> now ?s3 + d2) (timers ?s3) = ?L @ [?t2]"
    using d2 by (simp add: timers_doValidation timers_clean_inv [OF si])
  have "calm u [?t2] n (fold (fire w2) ?L ?s3') \<and> quiet u (fold (fire w2) ?L ?s3')"
    by (rule calm_fold_other) (use c3 q3 in auto)
  then have "calm u [] (Suc n) (fire w2 ?t2 (fold (fire w2) ?L ?s3')) \<and>
      settled (fire w2 ?t2 (fold (fire w2) ?L ?s3')) =
        (settled (fold (fire w2) ?L ?s3'))(t_promise ?t2 \<mapsto> fst (validate w2 u))"
    by (intro calm_fire_own) simp_all
  then show ?thesis
    unfolding elapse_fold L by (simp add: calm_def)
qed

text \<open>
  Claim C1. In every reachable state each URI has at most one armed timer. A call of
  \<^verbatim>\<open>doValidation\<close> on \<open>u\<close> disarms the timer of \<open>u\<close> (the call \<^verbatim>\<open>clearTimeout\<close> on the
  pending handle, if there is one, comes first in the trace) and then arms one new timer,
  due 200 ms later. Two calls on \<open>u\<close>, the second less than 200 ms after the first, with
  no other call on \<open>u\<close> in between (no batch runner has \<open>u\<close> ahead of its cursor): no
  validation of \<open>u\<close> runs before the second call, and once 200 ms or more have passed
  after it exactly one has run; its result settles the promise of the second call, and
  the promise of the first call has not settled. The other timers and the pools of the
  state run meanwhile, whatever the collaborators answer.
\<close>

theorem debounce:
  "length (filter (\<lambda>t. t_uri t = v) (timers (run es init))) \<le> 1 \<and>
   timers (snd (doValidation u (run es init))) =
     filter (\<lambda>t. t_uri t \<noteq> u) (timers (run es init)) @
       [\<lparr>handle = next_handle (run es init), due = now (run es init) + 200, t_uri = u,
         t_promise = fst (doValidation u (run es init))\<rparr>] \<and>
   trace (snd (doValidation u (run es init))) =
     trace (run es init)
       @ (case pendingValidationRequests (run es init) u of None \<Rightarrow> [] | Some h \<Rightarrow> [ClearTimeout h])
       @ [SetTimeout (next_handle (run es init)) u 200] \<and>
   (quiet u (run es init) \<and> d1 < 200 \<and> 200 \<le> d2 \<longrightarrow>
      validations u (elapse w1 d1 (snd (doValidation u (run es init)))) =
        validations u (run es init) \<and>
      validations u
        (elapse w2 d2 (snd (doValidation u (elapse w1 d1 (snd (doValidation u (run es init))))))) =
        validations u (run es init) + 1 \<and>
      settled
        (elapse w2 d2 (snd (doValidation u (elapse w1 d1 (snd (doValidation u (run es init)))))))
        (fst (doValidation u (elapse w1 d1 (snd (doValidation u (run es init)))))) =
        Some (fst (validate w2 u)) \<and>
      settled
        (elapse w2 d2 (snd (doValidation u (elapse w1 d1 (snd (doValidation u (run es init)))))))
        (fst (doValidation u (run es init))) = None)"
proof -
  let ?s0 = "run es init"
  let ?s2 = "elapse w1 d1 (snd (doValidation u ?s0))"
  let ?s3 = "snd (doValidation u ?s2)"
  let ?s4 = "elapse w2 d2 ?s3"
  let ?t1 = "\<lparr>handle = next_handle ?s0, due = now ?s0 + VALIDATION_DELAY_MS, t_uri = u,
                t_promise = next_promise ?s0\<rparr>"
  have si: "sched_inv ?s0"
    using inv_reachable [of es] by (simp add: service_inv_def)
  have a: "length (filter (\<lambda>t. t_uri t = v) (timers ?s0)) \<le> 1"
    by (rule at_most_one_timer [OF si])
  have b: "timers (snd (doValidation u ?s0)) =
     filter (\<lambda>t. t_uri t \<noteq> u) (timers ?s0) @
       [\<lparr>handle = next_handle ?s0, due = now ?s0 + 200, t_uri = u,
         t_promise = fst (doValidation u ?s0)\<rparr>]"
    by (simp add: timers_doValidation timers_clean_inv [OF si] VALIDATION_DELAY_MS_def)
  note c = trace_doValidation [of u ?s0]
  have d: "validations u ?s2 = validations u ?s0 \<and>
      validations u ?s4 = validations u ?s0 + 1 \<and>
      settled ?s4 (fst (doValidation u ?s2)) = Some (fst (validate w2 u)) \<and>
      settled ?s4 (fst (doValidation u ?s0)) = None"
    if q: "quiet u ?s0" and d1: "d1 < 200" and d2: "200 \<le> d2"
  proof -
    from debounce_first_window [OF si q, of d1 w1] d1
    have c2: "calm u [?t1] (validations u ?s0) ?s2" and q2: "quiet u ?s2"
      by (simp_all add: VALIDATION_DELAY_MS_def)
    from debounce_second_window [OF c2 q2, of d2 w2] d2
    have w: "validations u ?s4 = Suc (validations u ?s0)"
        "settled ?s4 (next_promise ?s2) = Some (fst (validate w2 u))"
      by (simp_all add: VALIDATION_DELAY_MS_def)
    from c2 have si2: "sched_inv ?s2" and "filter (\<lambda>t. t_uri t = u) (timers ?s2) = [?t1]"
      by (simp_all add: calm_def)
    then have "?t1 \<in> set (filter (\<lambda>t. t_uri t = u) (timers ?s2))" by simp
    then have armed: "?t1 \<in> set (timers ?s2)" by simp
    have "dead (t_promise ?t1) (step w1 (DoValidation (t_uri ?t1)) ?s2)"
      by (rule cancel_event_makes_dead [OF si2 armed]) (simp add: cancels_def)
    then have "dead (next_promise ?s0) ?s3" by simp
    then have "dead (next_promise ?s0) ?s4" by (rule dead_elapse)
    then have "settled ?s4 (next_promise ?s0) = None" by (simp add: dead_def)
    with w c2 show ?thesis by (simp add: calm_def)
  qed
  from a b c d show ?thesis by blast
qed

theorem debounce_witness:
  "quiet ''a.yaml'' (run [] init) \<and> (100::nat) < 200 \<and> (200::nat) \<le> 200 \<and>
   validations ''a.yaml'' (run [] init) = 0 \<and>
   trace (elapse example_world 200 (snd (doValidation ''a.yaml''
       (elapse example_world 100 (snd (doValidation ''a.yaml'' (run [] init))))))) =
     [SetTimeout 0 ''a.yaml'' 200, ClearTimeout 0, SetTimeout 1 ''a.yaml'' 200,
      Validate ''a.yaml'', GetTextDocument ''a.yaml'', GetYamlDocument ''a.yaml'',
      SendAnalytics ''validateDocument'' [(''documentType'', Some ''SAM'')],
      ValidationDoValidation ''a.yaml''] \<and>
   validations ''a.yaml'' (elapse example_world 200 (snd (doValidation ''a.yaml''
       (elapse example_world 100 (snd (doValidation ''a.yaml'' (run [] init))))))) = 1 \<and>
   settled (elapse example_world 200 (snd (doValidation ''a.yaml''
       (elapse example_world 100 (snd (doValidation ''a.yaml'' (run [] init))))))) 1 =
     Some (Inr ()) \<and>
   settled (elapse example_world 200 (snd (doValidation ''a.yaml''
       (elapse example_world 100 (snd (doValidation ''a.yaml'' (run [] init))))))) 0 = None"
proof -
  have q: "quiet ''a.yaml'' (run [] init)" "validations ''a.yaml'' (run [] init) = 0"
    by (simp_all add: quiet_def validations_def init_def)
  have s1: "snd (doValidation ''a.yaml'' (run [] init)) = armed_once"
    by (simp add: armed_once_def)
  have s2: "elapse example_world 100 armed_once = armed_once\<lparr>now := 100\<rparr>"
    by (simp add: armed_once_eq elapse_def init_def timer0_def)
  have s3: "snd (doValidation ''a.yaml'' (armed_once\<lparr>now := 100\<rparr>)) =
      init\<lparr>now := 100, pendingValidationRequests := [''a.yaml'' \<mapsto> 1],
        timers := [\<lparr>handle = 1, due = 300, t_uri = ''a.yaml'', t_promise = 1\<rparr>],
        next_handle := 2, next_promise := 2,
        trace := [SetTimeout 0 ''a.yaml'' 200, ClearTimeout 0, SetTimeout 1 ''a.yaml'' 200]\<rparr>"
    by (simp add: armed_once_eq timer0_def doValidation_def cleanPendingValidation_def
        clearTimeout_def setTimeout_def emit_def init_def VALIDATION_DELAY_MS_def)
  have t: "trace (elapse example_world 200 (snd (doValidation ''a.yaml'' (armed_once\<lparr>now := 100\<rparr>)))) =
     [SetTimeout 0 ''a.yaml'' 200, ClearTimeout 0, SetTimeout 1 ''a.yaml'' 200,
      Validate ''a.yaml'', GetTextDocument ''a.yaml'', GetYamlDocument ''a.yaml'',
      SendAnalytics ''validateDocument'' [(''documentType'', Some ''SAM'')],
      ValidationDoValidation ''a.yaml'']"
    unfolding s3
    by (simp add: elapse_def init_def fire_no_pools fired_def validate_def example_world_def
        promiseRejectionHandler_def)
  have v: "validations ''a.yaml''
      (elapse example_world 200 (snd (doValidation ''a.yaml'' (armed_once\<lparr>now := 100\<rparr>)))) = 1"
    unfolding validations_def t by simp
  have np: "next_promise armed_once = 1" by (simp add: armed_once_eq)
  have np0: "next_promise init = 0" by (simp add: init_def)
  have vr: "fst (validate example_world ''a.yaml'') = Inr ()"
    by (simp add: validate_def example_world_def)
  from q t v show ?thesis
    using debounce [of "''a.yaml''" "[]" "''a.yaml''" 100 200 example_world example_world]
    unfolding s1 s2 by (simp add: np np0 vr)
qed

section \<open>The batch runner\<close>

lemma proceed_exit:
  "\<not> (length (tracked (fst (proceed pl s))) < concurrency pl \<and>
      currentIndex (fst (proceed pl s)) < length (uris pl))"
proof (induction pl s rule: proceed.induct)
  case (1 pl s)
  show ?case
  proof (cases "length (tracked pl) < concurrency pl \<and> currentIndex pl < length (uris pl)")
    case False
    then show ?thesis by (simp add: proceed_stop)
  next
    case True
    from "1.IH" [OF True refl prod.collapse] show ?thesis
      unfolding proceed_step [OF True] by simp
  qed
qed

lemma pool_full_proceed:
  assumes "distinct (tracked pl)" "\<forall>q \<in> set (tracked pl). q < next_promise s"
    "length (tracked pl) \<le> concurrency pl"
  shows "pool_full (fst (proceed pl s))"
proof -
  have "distinct (tracked (fst (proceed pl s)))"
    unfolding proceed_tracked using assms(1,2) by auto
  moreover have "length (tracked (fst (proceed pl s))) \<le> concurrency pl"
    by (rule proceed_tracked_le [OF assms(3)])
  ultimately show ?thesis
    using proceed_exit [of pl s] unfolding pool_full_def by auto
qed

lemma pool_full_settled:
  assumes "pool_full pl" "pool_pre p s pl"
  shows "pool_full (fst (pool_settled p r pl s))"
proof (cases "p \<in> set (tracked pl)")
  case False
  with assms(1) show ?thesis by (simp add: pool_settled_def)
next
  case True
  have "length (removeAll p (tracked pl)) \<le> concurrency pl"
    using assms(2) le_trans [OF length_removeAll_less_eq, of "tracked pl" 3 p]
    by (simp add: pool_pre_def)
  then have "pool_full (fst (proceed (pl\<lparr>tracked := removeAll p (tracked pl)\<rparr>)
      (emit (snd (catch_sendException r)) s)))"
    using assms by (intro pool_full_proceed) (auto simp: pool_full_def pool_pre_def distinct_removeAll)
  with True show ?thesis by (simp add: pool_settled_def case_prod_beta)
qed

lemma pool_full_settle_pools:
  assumes "\<forall>pl \<in> set pls. pool_full pl \<and> pool_pre p s pl"
  shows "\<forall>pl \<in> set (fst (settle_pools p r pls s)). pool_full pl"
  using assms
proof (induction pls arbitrary: s)
  case Nil
  then show ?case by simp
next
  case (Cons pl pls)
  have "pool_full (fst (pool_settled p r pl s))"
    using Cons.prems by (simp add: pool_full_settled)
  moreover have "\<forall>pl \<in> set (fst (settle_pools p r pls (snd (pool_settled p r pl s)))). pool_full pl"
    using Cons.prems pool_settled_frame [of p r pl s]
    by (intro Cons.IH) (auto intro: pool_pre_mono)
  ultimately show ?case by (simp add: case_prod_beta)
qed

lemma full_inv_fire:
  assumes "full_inv s"
  shows "full_inv (fire w t s)"
proof (cases "t \<in> set (timers s)")
  case False
  with assms show ?thesis by (simp add: fire_disarmed)
next
  case True
  from assms have pf: "\<forall>pl \<in> set (pools s). pool_full pl"
    and pi: "\<forall>pl \<in> set (pools s). pool_inv s pl"
    by (simp_all add: full_inv_def service_inv_def)
  have "\<forall>pl \<in> set (pools s). pool_pre (t_promise t) (fired w t s) pl"
    using pi by (auto simp: pool_inv_def pool_pre_def)
  with pf have "\<forall>pl \<in> set (fst (settle_pools (t_promise t) (Inr ()) (pools s) (fired w t s))). pool_full pl"
    by (intro pool_full_settle_pools) auto
  then show ?thesis
    using assms inv_fire [of s w t] unfolding full_inv_def
    by (simp add: fire_armed [OF True])
qed

lemma pools_doValidation_run [simp]:
  "pools (cleanPendingValidation u s) = pools s"
  by (simp add: cleanPendingValidation_def clearTimeout_def emit_def Let_def split: option.splits)

lemma pools_clearDocument' [simp]: "pools (clearDocument w u s) = pools s"
  by (simp add: clearDocument_def Let_def split: option.splits)

lemma pools_onFileChanged [simp]: "pools (snd (onFileChanged w u s)) = pools s"
  by (simp add: onFileChanged_def Let_def split: option.splits)

lemma full_inv_elapse: "full_inv s \<Longrightarrow> full_inv (elapse w d s)"
proof -
  assume a: "full_inv s"
  then have "full_inv (s\<lparr>now := now s + d\<rparr>)"
    using inv_now [of s d] by (simp add: full_inv_def)
  then show ?thesis
    unfolding elapse_def Let_def
    by (rule fold_preserves [where P = full_inv and f = "fire w", rotated]) (rule full_inv_fire)
qed

lemma full_inv_trigger:
  assumes "full_inv s"
  shows "full_inv (triggerValidationForWorkspaceFiles us s)"
proof -
  have "pool_full (fst (proceed \<lparr>uris = us, currentIndex = 0, concurrency = 3, tracked = []\<rparr> s))"
    by (rule pool_full_proceed) simp_all
  then show ?thesis
    using assms inv_trigger [of s us] unfolding full_inv_def
    by (simp add: triggerValidationForWorkspaceFiles_def case_prod_beta)
qed

lemma full_inv_step: "full_inv s \<Longrightarrow> full_inv (step w e s)"
proof (cases e)
  case (Elapse d)
  assume "full_inv s"
  then show ?thesis unfolding Elapse by (simp add: full_inv_elapse)
next
  case (OnWorkplaceFilesInitialized us)
  assume "full_inv s"
  then show ?thesis unfolding OnWorkplaceFilesInitialized by (simp add: full_inv_trigger)
next
  case (OnWorkplaceFilesChanged us)
  assume "full_inv s"
  then show ?thesis unfolding OnWorkplaceFilesChanged by (simp add: full_inv_trigger)
qed (use inv_step [of s w e] in \<open>simp_all add: full_inv_def\<close>)

lemma full_inv_reachable: "full_inv (run es init)"
proof -
  have "full_inv s \<Longrightarrow> full_inv (run es s)" for s
    by (induction es arbitrary: s) (auto simp: full_inv_step)
  moreover have "full_inv init"
    using inv_init by (simp add: full_inv_def) (simp add: init_def)
  ultimately show ?thesis by blast
qed

lemma pool_settled_next:
  assumes "pool_full pl" "concurrency pl = 3" "p \<in> set (tracked pl)"
    "currentIndex pl < length (uris pl)"
  shows "pool_settled p r pl s =
     (pl\<lparr>currentIndex := currentIndex pl + 1,
         tracked := removeAll p (tracked pl) @ [next_promise s]\<rparr>,
      snd (doValidation (uris pl ! currentIndex pl) (emit (snd (catch_sendException r)) s)))"
proof -
  let ?pl = "pl\<lparr>tracked := removeAll p (tracked pl)\<rparr>"
  let ?s = "emit (snd (catch_sendException r)) s"
  let ?pl' = "?pl\<lparr>currentIndex := currentIndex ?pl + 1,
      tracked := tracked ?pl @ [fst (doValidation (uris ?pl ! currentIndex ?pl) ?s)]\<rparr>"
  from assms have len: "length (tracked pl) = 3" "distinct (tracked pl)"
    by (simp_all add: pool_full_def)
  then have "length (removeAll p (tracked pl)) = 2"
    using assms(3) by (simp add: distinct_remove1_removeAll [symmetric] length_remove1)
  then have go: "length (tracked ?pl) < concurrency ?pl \<and> currentIndex ?pl < length (uris ?pl)"
    and stop: "\<not> (length (tracked ?pl') < concurrency ?pl' \<and> currentIndex ?pl' < length (uris ?pl'))"
    using assms(2,4) by simp_all
  have "pool_settled p r pl s = proceed ?pl ?s"
    using assms(3) by (simp add: pool_settled_def case_prod_beta)
  also have "\<dots> = proceed ?pl' (snd (doValidation (uris ?pl ! currentIndex ?pl) ?s))"
    by (rule proceed_step [OF go])
  also have "\<dots> = (?pl', snd (doValidation (uris ?pl ! currentIndex ?pl) ?s))"
    by (rule proceed_stop [OF stop])
  finally show ?thesis by simp
qed

lemma pool_settled_last:
  assumes "p \<in> set (tracked pl)" "\<not> currentIndex pl < length (uris pl)"
  shows "pool_settled p r pl s =
     (pl\<lparr>tracked := removeAll p (tracked pl)\<rparr>, emit (snd (catch_sendException r)) s)"
  using assms by (simp add: pool_settled_def case_prod_beta proceed_stop)

lemma core_eq_refl [simp]: "core_eq s s"
  by (simp add: core_eq_def)

lemma core_eq_emit: "core_eq s s' \<Longrightarrow> core_eq (emit cs s) (emit cs' s')"
  by (simp add: core_eq_def)

lemma core_eq_doValidation:
  assumes "core_eq s s'"
  shows "fst (doValidation v s) = fst (doValidation v s') \<and>
         core_eq (snd (doValidation v s)) (snd (doValidation v s'))"
  using assms by (auto simp: core_eq_def timers_doValidation timers_clean split: option.splits)

lemma core_eq_proceed:
  "core_eq s s' \<Longrightarrow>
     fst (proceed pl s) = fst (proceed pl s') \<and> core_eq (snd (proceed pl s)) (snd (proceed pl s'))"
proof (induction pl s arbitrary: s' rule: proceed.induct)
  case (1 pl s)
  show ?case
  proof (cases "length (tracked pl) < concurrency pl \<and> currentIndex pl < length (uris pl)")
    case False
    then show ?thesis using "1.prems" by (simp add: proceed_stop)
  next
    case True
    let ?v = "uris pl ! currentIndex pl"
    from core_eq_doValidation [OF "1.prems", of ?v]
    have f: "fst (doValidation ?v s) = fst (doValidation ?v s')"
      and c: "core_eq (snd (doValidation ?v s)) (snd (doValidation ?v s'))"
      by simp_all
    from "1.IH" [OF True refl prod.collapse c] show ?thesis
      unfolding proceed_step [OF True] f by simp
  qed
qed

lemma core_eq_pool_settled:
  assumes "core_eq s s'"
  shows "fst (pool_settled p r pl s) = fst (pool_settled p r' pl s') \<and>
         core_eq (snd (pool_settled p r pl s)) (snd (pool_settled p r' pl s'))"
proof (cases "p \<in> set (tracked pl)")
  case False
  with assms show ?thesis by (simp add: pool_settled_def)
next
  case True
  have "core_eq (emit (snd (catch_sendException r)) s) (emit (snd (catch_sendException r')) s')"
    by (rule core_eq_emit [OF assms])
  from core_eq_proceed [OF this] True show ?thesis
    by (simp add: pool_settled_def case_prod_beta)
qed

lemma core_eq_settle_pools:
  "core_eq s s' \<Longrightarrow>
     fst (settle_pools p r pls s) = fst (settle_pools p r' pls s') \<and>
     core_eq (snd (settle_pools p r pls s)) (snd (settle_pools p r' pls s'))"
proof (induction pls arbitrary: s s')
  case Nil
  then show ?case by simp
next
  case (Cons pl pls)
  from core_eq_pool_settled [OF Cons.prems, of p r pl r']
  have f: "fst (pool_settled p r pl s) = fst (pool_settled p r' pl s')"
    and c: "core_eq (snd (pool_settled p r pl s)) (snd (pool_settled p r' pl s'))"
    by simp_all
  from Cons.IH [OF c] f show ?case by (simp add: case_prod_beta)
qed

lemma core_eq_fire: "core_eq (fire w t s) (fire w' t s)"
proof (cases "t \<in> set (timers s)")
  case True
  have "core_eq (fired w t s) (fired w' t s)" by (simp add: core_eq_def)
  from core_eq_settle_pools [OF this, of "t_promise t" "Inr ()" "pools s" "Inr ()"]
  show ?thesis unfolding fire_armed [OF True] by (simp add: core_eq_def)
qed (simp add: fire_disarmed)

lemma filter_timer_calls [simp]:
  "filter is_Validate (trace (snd (doValidation v s))) = filter is_Validate (trace s)"
  "filter is_SendException (trace (snd (doValidation v s))) = filter is_SendException (trace s)"
  by (simp_all add: trace_doValidation split: option.splits)

lemma batch_start_next:
  assumes b: "batch w us finished flying (v # waiting) pl s" and l: "length flying < 3"
  shows "batch w us finished (flying @ [v]) waiting
           (pl\<lparr>currentIndex := currentIndex pl + 1,
               tracked := tracked pl @ [fst (doValidation v s)]\<rparr>)
           (snd (doValidation v s)) \<and>
         (\<exists>t. timers (snd (doValidation v s)) = timers s @ [t]) \<and>
         uris pl ! currentIndex pl = v"
proof -
  from b have us: "us = finished @ flying @ v # waiting" and d: "distinct us"
    and si: "sched_inv s" and fl: "map t_uri (timers s) = flying"
    unfolding batch_def by blast+
  from us d have "v \<notin> set flying" by auto
  with fl have "\<forall>t \<in> set (timers s). t_uri t \<noteq> v" by auto
  then have keep: "filter (\<lambda>t. t_uri t \<noteq> v) (timers s) = timers s" by simp
  have ts: "timers (snd (doValidation v s)) =
      timers s @ [\<lparr>handle = next_handle s, due = now s + VALIDATION_DELAY_MS, t_uri = v,
                    t_promise = next_promise s\<rparr>]"
    by (simp add: timers_doValidation timers_clean_inv [OF si] keep)
  have nth: "uris pl ! currentIndex pl = v"
    using b by (simp add: batch_def nth_append)
  have "batch w us finished (flying @ [v]) waiting
           (pl\<lparr>currentIndex := currentIndex pl + 1,
               tracked := tracked pl @ [fst (doValidation v s)]\<rparr>)
           (snd (doValidation v s))"
    using b l unfolding batch_def ts
    by (auto simp: sched_inv_doValidation [OF si]) blast+
  with ts nth show ?thesis by blast
qed

lemma batch_proceed:
  "batch w us finished flying waiting pl s \<Longrightarrow>
     batch w us finished (flying @ take (3 - length flying) waiting)
       (drop (3 - length flying) waiting) (fst (proceed pl s)) (snd (proceed pl s)) \<and>
     (\<exists>new. timers (snd (proceed pl s)) = timers s @ new)"
proof (induction pl s arbitrary: flying waiting rule: proceed.induct)
  case (1 pl s)
  from "1.prems" have pl: "length (tracked pl) = length flying" "concurrency pl = 3"
      "currentIndex pl = length finished + length flying"
      "length (uris pl) = length finished + length flying + length waiting"
      and le: "length flying \<le> 3"
    by (auto simp: batch_def dest: arg_cong [where f = length])
  show ?case
  proof (cases "length (tracked pl) < concurrency pl \<and> currentIndex pl < length (uris pl)")
    case False
    with pl le have "length flying = 3 \<or> waiting = []" by auto
    then show ?thesis using "1.prems" by (auto simp: proceed_stop [OF False])
  next
    case True
    with pl obtain v waiting' where w: "waiting = v # waiting'" and l: "length flying < 3"
      by (cases waiting) auto
    let ?v = "uris pl ! currentIndex pl"
    from batch_start_next [OF "1.prems" [unfolded w] l]
    have v: "?v = v"
      and b: "batch w us finished (flying @ [v]) waiting'
           (pl\<lparr>currentIndex := currentIndex pl + 1,
               tracked := tracked pl @ [fst (doValidation v s)]\<rparr>)
           (snd (doValidation v s))"
      and t: "\<exists>t. timers (snd (doValidation v s)) = timers s @ [t]"
      by blast+
    from "1.IH" [OF True refl prod.collapse b [folded v]]
    have "batch w us finished ((flying @ [v]) @ take (3 - length (flying @ [v])) waiting')
       (drop (3 - length (flying @ [v])) waiting') (fst (proceed pl s)) (snd (proceed pl s))"
      and "\<exists>new. timers (snd (proceed pl s)) = timers (snd (doValidation v s)) @ new"
      unfolding proceed_step [OF True] v by blast+
    moreover have "(flying @ [v]) @ take (3 - length (flying @ [v])) waiting' =
        flying @ take (3 - length flying) waiting"
      "drop (3 - length (flying @ [v])) waiting' = drop (3 - length flying) waiting"
      using l unfolding w by (simp_all add: take_Cons' drop_Cons')
    ultimately show ?thesis using t by auto
  qed
qed

lemma batch_pools [simp]: "batch w us fin fl wa pl (s\<lparr>pools := ps\<rparr>) = batch w us fin fl wa pl s"
  by (simp add: batch_def)

lemma running_trigger:
  assumes "distinct us"
  shows "running w us [] (take 3 us) (drop 3 us) (triggerValidationForWorkspaceFiles us init)"
proof -
  let ?pl = "\<lparr>uris = us, currentIndex = 0, concurrency = 3, tracked = []\<rparr>"
  have "batch w us [] [] us ?pl init"
    using assms by (simp add: batch_def sched_inv_init reports_def) (simp add: init_def)
  from batch_proceed [OF this]
  have "batch w us [] (take 3 us) (drop 3 us) (fst (proceed ?pl init)) (snd (proceed ?pl init))"
    by simp
  moreover have "pools (snd (proceed ?pl init)) = []" by (simp add: init_def)
  ultimately show ?thesis
    by (auto simp: running_def triggerValidationForWorkspaceFiles_def case_prod_beta)
qed

lemma validate_no_marks:
  "filter is_Validate (snd (validate w u)) = []"
  "filter is_SendException (snd (validate w u)) = []"
  by (auto simp: validate_def validate_catch_def split: sum.splits option.splits)

lemma wrapper_marks:
  "filter is_Validate (snd (promiseRejectionHandler r)) = []"
  "filter is_SendException (snd (promiseRejectionHandler r)) =
     (case r of Inl e \<Rightarrow> [SendException e] | Inr v \<Rightarrow> [])"
  by (cases r; simp add: promiseRejectionHandler_def)+

lemma reports_snoc:
  "reports w (us @ [u]) =
     reports w us @ (case fst (validate w u) of Inl e \<Rightarrow> [SendException e] | Inr v \<Rightarrow> [])"
  by (simp add: reports_def)

lemma batch_fired:
  assumes b: "batch w us fin (u # fl) wa pl s" and ts: "timers s = t # ts"
  shows "batch w us (fin @ [u]) fl wa (pl\<lparr>tracked := removeAll (t_promise t) (tracked pl)\<rparr>)
           (fired w t s) \<and>
         timers (fired w t s) = ts \<and> t_promise t \<in> set (tracked pl) \<and> pools (fired w t s) = pools s"
proof -
  from b have si: "sched_inv s" and us: "us = fin @ (u # fl) @ wa" and d: "distinct us"
    and tu: "map t_uri (timers s) = u # fl"
    and tp: "map t_promise (timers s) = [length fin ..< length fin + length (u # fl)]"
    and np: "next_promise s = length fin + length (u # fl)"
    and pl: "pl = \<lparr>uris = us, currentIndex = length fin + length (u # fl), concurrency = 3,
           tracked = map t_promise (timers s)\<rparr>"
    and st: "\<forall>p. settled s p = (if p < length fin then Some (fst (validate w (us ! p))) else None)"
    and tv: "filter is_Validate (trace s) = map Validate fin"
    and te: "filter is_SendException (trace s) = reports w fin"
    and le: "length (u # fl) \<le> 3"
    unfolding batch_def by blast+
  have armed: "t \<in> set (timers s)" by (simp add: ts)
  have up: "[length fin ..< length fin + length (u # fl)] =
      length fin # [length (fin @ [u]) ..< length (fin @ [u]) + length fl]"
    by (simp add: upt_conv_Cons del: upt_Suc)
  have t: "t_uri t = u" "t_promise t = length fin"
    using tu tp unfolding ts up by simp_all
  have rest: "map t_uri ts = fl"
    "map t_promise ts = [length (fin @ [u]) ..< length (fin @ [u]) + length fl]"
    using tu tp unfolding ts up by simp_all
  have dh: "distinct (map handle (t # ts))"
    using sched_inv_distinct(1) [OF si] by (simp add: ts)
  then have "\<forall>x \<in> set ts. handle x \<noteq> handle t" by (metis distinct.simps(2) image_eqI list.simps(9) set_map)
  then have tsf: "filter (\<lambda>x. handle x \<noteq> handle t) (timers s) = ts"
    unfolding ts by simp
  have "distinct (map t_promise (t # ts))"
    using sched_inv_distinct(2) [OF si] by (simp add: ts)
  then have "t_promise t \<notin> set (map t_promise ts)" by simp
  then have "removeAll (t_promise t) (map t_promise ts) = map t_promise ts"
    by (rule removeAll_id)
  then have rm: "removeAll (t_promise t) (map t_promise (timers s)) = map t_promise ts"
    unfolding ts by simp
  have nth: "us ! length fin = u" unfolding us by (simp add: nth_append)
  have settled: "\<forall>p. settled (fired w t s) p =
      (if p < length (fin @ [u]) then Some (fst (validate w (us ! p))) else None)"
    using st nth by (auto simp: fired_def t less_Suc_eq)
  have tr: "filter is_Validate (trace (fired w t s)) = map Validate (fin @ [u])"
    "filter is_SendException (trace (fired w t s)) = reports w (fin @ [u])"
    using tv te by (simp_all add: fired_def t validate_no_marks wrapper_marks reports_snoc)
  have "batch w us (fin @ [u]) fl wa (pl\<lparr>tracked := removeAll (t_promise t) (tracked pl)\<rparr>)
           (fired w t s)"
    unfolding batch_def
    using us d le np sched_inv_fired [OF si armed, of w] settled tr rest
    by (simp add: tsf pl rm)
  moreover have "t_promise t \<in> set (tracked pl)" by (simp add: pl ts)
  ultimately show ?thesis by (simp add: tsf)
qed

lemma running_fire:
  assumes r: "running w us fin (u # fl) wa s" and ts: "timers s = t # ts"
  shows "running w us (fin @ [u]) (fl @ take 1 wa) (drop 1 wa) (fire w t s) \<and>
         (\<exists>new. timers (fire w t s) = ts @ new)"
proof -
  from r obtain pl where pl: "pools s = [pl]" and b: "batch w us fin (u # fl) wa pl s"
    and sat: "wa \<noteq> [] \<longrightarrow> length (u # fl) = 3"
    by (auto simp: running_def)
  let ?pl = "pl\<lparr>tracked := removeAll (t_promise t) (tracked pl)\<rparr>"
  let ?f = "fired w t s"
  from batch_fired [OF b ts]
  have bf: "batch w us (fin @ [u]) fl wa ?pl ?f" and tf: "timers ?f = ts"
    and tr: "t_promise t \<in> set (tracked pl)"
    by blast+
  have k: "fl @ take (3 - length fl) wa = fl @ take 1 wa" "drop (3 - length fl) wa = drop 1 wa"
    using sat by (cases wa; simp)+
  from batch_proceed [OF bf]
  have bp: "batch w us (fin @ [u]) (fl @ take 1 wa) (drop 1 wa) (fst (proceed ?pl ?f)) (snd (proceed ?pl ?f))"
    and tp: "\<exists>new. timers (snd (proceed ?pl ?f)) = ts @ new"
    unfolding k tf by blast+
  have armed: "t \<in> set (timers s)" by (simp add: ts)
  have fire: "fire w t s = (snd (proceed ?pl ?f))\<lparr>pools := [fst (proceed ?pl ?f)]\<rparr>"
    unfolding fire_armed [OF armed] pl using tr
    by (simp add: pool_settled_def case_prod_beta)
  have "drop 1 wa \<noteq> [] \<longrightarrow> length (fl @ take 1 wa) = 3"
    using sat by (cases wa) auto
  with bp tp show ?thesis
    unfolding fire running_def by simp
qed

lemma running_fold:
  "running w us fin fl wa s \<Longrightarrow> k \<le> length fl \<Longrightarrow>
     running w us (fin @ take k fl) (drop k fl @ take k wa) (drop k wa)
       (fold (fire w) (take k (timers s)) s)"
proof (induction k arbitrary: s fin fl wa)
  case 0
  then show ?case by simp
next
  case (Suc k)
  from Suc.prems(2) obtain u fl' where fl: "fl = u # fl'" by (cases fl) auto
  from Suc.prems(1) have "map t_uri (timers s) = fl"
    by (auto simp: running_def batch_def)
  with fl obtain t ts where ts: "timers s = t # ts" by (cases "timers s") auto
  have len: "length ts = length fl'"
    using \<open>map t_uri (timers s) = fl\<close> unfolding ts fl by (auto dest: arg_cong [where f = length])
  from running_fire [OF Suc.prems(1) [unfolded fl] ts]
  obtain new where r: "running w us (fin @ [u]) (fl' @ take 1 wa) (drop 1 wa) (fire w t s)"
    and tn: "timers (fire w t s) = ts @ new"
    by blast
  have k: "k \<le> length fl'" using Suc.prems(2) fl by simp
  then have k': "k \<le> length (fl' @ take 1 wa)" by simp
  have tk: "take k (timers (fire w t s)) = take k ts"
    using k len by (simp add: tn)
  have "take 1 wa @ take k (drop 1 wa) = take (Suc k) wa"
    by (cases wa) simp_all
  with Suc.IH [OF r k'] k show ?case
    unfolding tk by (simp add: ts fl drop_Cons')
qed

lemma batch_now:
  "batch w us fin fl wa pl s \<Longrightarrow> now s \<le> k \<Longrightarrow> batch w us fin fl wa pl (s\<lparr>now := k\<rparr>)"
  unfolding batch_def by (elim conjE, intro conjI) (simp_all add: sched_inv_now)

lemma running_now:
  "running w us fin fl wa s \<Longrightarrow> now s \<le> k \<Longrightarrow> running w us fin fl wa (s\<lparr>now := k\<rparr>)"
  unfolding running_def by (auto intro: batch_now)

lemma running_elapse:
  assumes r: "running w us fin fl wa s" and d: "VALIDATION_DELAY_MS \<le> d"
  shows "running w us (fin @ fl) (take (length fl) wa) (drop (length fl) wa) (elapse w d s)"
proof -
  from r have si: "sched_inv s" and tu: "map t_uri (timers s) = fl"
    by (auto simp: running_def batch_def)
  have "\<forall>t \<in> set (timers s). due t \<le> now s + d"
    using sched_inv_bounds(4) [OF si] d by fastforce
  then have due: "filter (\<lambda>t. due t \<le> now s + d) (timers s) = timers s" by simp
  have len: "length (timers s) = length fl"
    using tu by (auto dest: arg_cong [where f = length])
  have "running w us fin fl wa (s\<lparr>now := now s + d\<rparr>)"
    by (rule running_now [OF r]) simp
  from running_fold [OF this, of "length fl"] show ?thesis
    unfolding elapse_fold due using len by simp
qed

lemma running_rounds:
  "running w us fin fl wa s \<Longrightarrow> \<forall>d \<in> set ds. VALIDATION_DELAY_MS \<le> d \<Longrightarrow>
   length fl + length wa \<le> 3 * length ds \<Longrightarrow>
     running w us us [] [] (run (map (\<lambda>d. (w, Elapse d)) ds) s)"
proof (induction ds arbitrary: s fin fl wa)
  case Nil
  then show ?case by (auto simp: running_def batch_def)
next
  case (Cons d ds)
  have r: "running w us (fin @ fl) (take (length fl) wa) (drop (length fl) wa) (elapse w d s)"
    by (rule running_elapse) (use Cons.prems in auto)
  have "length (take (length fl) wa) + length (drop (length fl) wa) \<le> 3 * length ds"
  proof (cases "wa = []")
    case True
    then show ?thesis by simp
  next
    case False
    with Cons.prems(1) have "length fl = 3" by (simp add: running_def)
    with Cons.prems(3) show ?thesis by simp
  qed
  from Cons.IH [OF r _ this] Cons.prems(2) show ?case by simp
qed

text \<open>
  Claim C3. (1) In every reachable state every pool has concurrency 3 and tracks at most
  3 promises, none of which has settled: at most 3 validations of a batch are in flight.
  (2) When a promise tracked by a pool of a reachable state settles, fulfilled or
  rejected, and URIs are left, the pool calls \<^verbatim>\<open>doValidation\<close> on the URI under the cursor,
  once, advances the cursor by one and tracks the new promise in the freed slot; when no
  URI is left it only frees the slot. (3) When \<^verbatim>\<open>validate\<close> is rejected with \<open>err\<close>, the
  promise is rejected, \<open>err\<close> is sent to the exception sink right after the calls of the
  run, and only calls on timers follow. (4) The timers, the table, the counters and the
  pools after a timer has fired are the same whatever the collaborators answered: a
  failure starts the same next validations as a success. (5) A batch over distinct URIs
  in a fresh service, followed by at least a third as many periods of 200 ms or more as
  there are URIs, whatever the collaborators answer in world \<open>w\<close>: every URI was validated
  exactly once, in order; every promise has settled with the result of its validation;
  the failures, and nothing else, were sent to the exception sink; no timer is armed and
  the pool is at the end of the list with nothing in flight.
\<close>

theorem batch_runner:
  "(pl \<in> set (pools (run es init)) \<longrightarrow>
      concurrency pl = 3 \<and> length (tracked pl) \<le> 3 \<and>
      (p \<in> set (tracked pl) \<longrightarrow> settled (run es init) p = None) \<and>
      (p \<in> set (tracked pl) \<and> currentIndex pl < length (uris pl) \<longrightarrow>
         pool_settled p r pl s =
           (pl\<lparr>currentIndex := currentIndex pl + 1,
               tracked := removeAll p (tracked pl) @ [next_promise s]\<rparr>,
            snd (doValidation (uris pl ! currentIndex pl) (emit (snd (catch_sendException r)) s)))) \<and>
      (p \<in> set (tracked pl) \<and> \<not> currentIndex pl < length (uris pl) \<longrightarrow>
         pool_settled p r pl s =
           (pl\<lparr>tracked := removeAll p (tracked pl)\<rparr>, emit (snd (catch_sendException r)) s))) \<and>
   (t \<in> set (timers s) \<and> fst (validate w (t_uri t)) = Inl err \<longrightarrow>
      settled (fire w t s) (t_promise t) = Some (Inl err) \<and>
      (\<exists>cs. trace (fire w t s) =
              trace s @ Validate (t_uri t) # snd (validate w (t_uri t)) @ [SendException err] @ cs \<and>
            (\<forall>c \<in> set cs. is_timer_call c))) \<and>
   core_eq (fire w t s) (fire w' t s) \<and>
   (distinct us \<and> (\<forall>d \<in> set ds. 200 \<le> d) \<and> length us \<le> 3 * length ds \<longrightarrow>
      filter is_Validate
        (trace (run ((w0, OnWorkplaceFilesInitialized us) # map (\<lambda>d. (w, Elapse d)) ds) init)) =
        map Validate us \<and>
      filter is_SendException
        (trace (run ((w0, OnWorkplaceFilesInitialized us) # map (\<lambda>d. (w, Elapse d)) ds) init)) =
        reports w us \<and>
      (\<forall>q. settled (run ((w0, OnWorkplaceFilesInitialized us) # map (\<lambda>d. (w, Elapse d)) ds) init) q =
         (if q < length us then Some (fst (validate w (us ! q))) else None)) \<and>
      timers (run ((w0, OnWorkplaceFilesInitialized us) # map (\<lambda>d. (w, Elapse d)) ds) init) = [] \<and>
      pools (run ((w0, OnWorkplaceFilesInitialized us) # map (\<lambda>d. (w, Elapse d)) ds) init) =
        [\<lparr>uris = us, currentIndex = length us, concurrency = 3, tracked = []\<rparr>])"
proof -
  have a: "concurrency pl = 3 \<and> length (tracked pl) \<le> 3 \<and>
      (p \<in> set (tracked pl) \<longrightarrow> settled (run es init) p = None) \<and>
      (p \<in> set (tracked pl) \<and> currentIndex pl < length (uris pl) \<longrightarrow>
         pool_settled p r pl s =
           (pl\<lparr>currentIndex := currentIndex pl + 1,
               tracked := removeAll p (tracked pl) @ [next_promise s]\<rparr>,
            snd (doValidation (uris pl ! currentIndex pl) (emit (snd (catch_sendException r)) s)))) \<and>
      (p \<in> set (tracked pl) \<and> \<not> currentIndex pl < length (uris pl) \<longrightarrow>
         pool_settled p r pl s =
           (pl\<lparr>tracked := removeAll p (tracked pl)\<rparr>, emit (snd (catch_sendException r)) s))"
    if pl: "pl \<in> set (pools (run es init))"
  proof -
    from full_inv_reachable [of es] pl
    have pi: "pool_inv (run es init) pl" and pf: "pool_full pl"
      by (auto simp: full_inv_def service_inv_def)
    from pi have c: "concurrency pl = 3" "length (tracked pl) \<le> 3"
      and u: "p \<in> set (tracked pl) \<longrightarrow> settled (run es init) p = None"
      by (auto simp: pool_inv_def)
    from pool_settled_next [OF pf c(1)] pool_settled_last c u show ?thesis by blast
  qed
  have b: "settled (fire w t s) (t_promise t) = Some (Inl err) \<and>
      (\<exists>cs. trace (fire w t s) =
              trace s @ Validate (t_uri t) # snd (validate w (t_uri t)) @ [SendException err] @ cs \<and>
            (\<forall>c \<in> set cs. is_timer_call c))"
    if armed: "t \<in> set (timers s)" and fails: "fst (validate w (t_uri t)) = Inl err"
    using trace_fire [OF armed, of w] settled_fire [OF armed, of w] fails
    by (simp add: promiseRejectionHandler_def)
  have c: "core_eq (fire w t s) (fire w' t s)" by (rule core_eq_fire)
  let ?s = "run ((w0, OnWorkplaceFilesInitialized us) # map (\<lambda>d. (w, Elapse d)) ds) init"
  have d: "filter is_Validate (trace ?s) = map Validate us \<and>
      filter is_SendException (trace ?s) = reports w us \<and>
      (\<forall>q. settled ?s q = (if q < length us then Some (fst (validate w (us ! q))) else None)) \<and>
      timers ?s = [] \<and>
      pools ?s = [\<lparr>uris = us, currentIndex = length us, concurrency = 3, tracked = []\<rparr>]"
    if dist: "distinct us" and ds: "\<forall>d \<in> set ds. 200 \<le> d" and len: "length us \<le> 3 * length ds"
  proof -
    have "running w us [] (take 3 us) (drop 3 us) (triggerValidationForWorkspaceFiles us init)"
      by (rule running_trigger [OF dist])
    then have "running w us us [] [] (run (map (\<lambda>d. (w, Elapse d)) ds) (triggerValidationForWorkspaceFiles us init))"
      by (rule running_rounds) (use ds len in \<open>simp_all add: VALIDATION_DELAY_MS_def\<close>)
    then show ?thesis
      unfolding running_def batch_def by auto
  qed
  from a b c d show ?thesis by blast
qed

lemma batch_started_eq:
  "batch_started =
     init\<lparr>pendingValidationRequests := [''a.yaml'' \<mapsto> 0, ''b.yaml'' \<mapsto> 1, ''c.yaml'' \<mapsto> 2],
       timers := [\<lparr>handle = 0, due = 200, t_uri = ''a.yaml'', t_promise = 0\<rparr>,
                  \<lparr>handle = 1, due = 200, t_uri = ''b.yaml'', t_promise = 1\<rparr>,
                  \<lparr>handle = 2, due = 200, t_uri = ''c.yaml'', t_promise = 2\<rparr>],
       next_handle := 3, next_promise := 3, pools := [three_flying],
       trace := [SetTimeout 0 ''a.yaml'' 200, SetTimeout 1 ''b.yaml'' 200, SetTimeout 2 ''c.yaml'' 200]\<rparr>"
  by (simp add: batch_started_def five_files_def three_flying_def
      triggerValidationForWorkspaceFiles_def proceed.simps doValidation_def
      cleanPendingValidation_def setTimeout_def emit_def init_def VALIDATION_DELAY_MS_def
      numeral_2_eq_2)

theorem batch_runner_witness:
  "three_flying \<in> set (pools batch_started) \<and> 0 \<in> set (tracked three_flying) \<and>
   currentIndex three_flying < length (uris three_flying) \<and>
   settled batch_started 0 = None \<and>
   pool_settled 0 (Inl (Error ''ENOENT'')) three_flying batch_started =
     (three_flying\<lparr>currentIndex := 4, tracked := [1, 2, 3]\<rparr>,
      snd (doValidation ''d.yaml'' (emit [SendException (Error ''ENOENT'')] batch_started))) \<and>
   \<lparr>handle = 0, due = 200, t_uri = ''a.yaml'', t_promise = 0\<rparr> \<in> set (timers batch_started) \<and>
   fst (validate unreadable_world ''a.yaml'') = Inl (Error ''ENOENT'') \<and>
   settled (fire unreadable_world \<lparr>handle = 0, due = 200, t_uri = ''a.yaml'', t_promise = 0\<rparr>
     batch_started) 0 = Some (Inl (Error ''ENOENT'')) \<and>
   core_eq
     (fire unreadable_world \<lparr>handle = 0, due = 200, t_uri = ''a.yaml'', t_promise = 0\<rparr> batch_started)
     (fire example_world \<lparr>handle = 0, due = 200, t_uri = ''a.yaml'', t_promise = 0\<rparr> batch_started) \<and>
   distinct five_files \<and> length five_files \<le> 3 * length [200, 200 :: nat] \<and>
   filter is_Validate
     (trace (run ((example_world, OnWorkplaceFilesInitialized five_files) #
                  map (\<lambda>d. (unreadable_world, Elapse d)) [200, 200]) init)) =
     map Validate five_files \<and>
   filter is_SendException
     (trace (run ((example_world, OnWorkplaceFilesInitialized five_files) #
                  map (\<lambda>d. (unreadable_world, Elapse d)) [200, 200]) init)) =
     replicate 5 (SendException (Error ''ENOENT'')) \<and>
   timers (run ((example_world, OnWorkplaceFilesInitialized five_files) #
                map (\<lambda>d. (unreadable_world, Elapse d)) [200, 200]) init) = [] \<and>
   pools (run ((example_world, OnWorkplaceFilesInitialized five_files) #
               map (\<lambda>d. (unreadable_world, Elapse d)) [200, 200]) init) =
     [\<lparr>uris = five_files, currentIndex = 5, concurrency = 3, tracked = []\<rparr>]"
proof -
  let ?t = "\<lparr>handle = 0, due = 200, t_uri = ''a.yaml'', t_promise = 0\<rparr>"
  have pl: "three_flying \<in> set (pools (run [(example_world, OnWorkplaceFilesInitialized five_files)] init))"
    unfolding batch_started_def [symmetric] by (simp add: batch_started_eq)
  have p: "(0::nat) \<in> set (tracked three_flying)"
    "currentIndex three_flying < length (uris three_flying)"
    "uris three_flying ! currentIndex three_flying = ''d.yaml''"
    "removeAll 0 (tracked three_flying) = [1, 2]"
    "currentIndex three_flying = 3"
    by (simp_all add: three_flying_def five_files_def)
  have np: "next_promise batch_started = 3" "settled batch_started 0 = None"
    by (simp_all add: batch_started_eq init_def)
  have t: "?t \<in> set (timers batch_started)" by (simp add: batch_started_eq)
  have v: "fst (validate unreadable_world ''a.yaml'') = Inl (Error ''ENOENT'')"
    by (simp add: validate_def unreadable_world_def example_world_def)
  have d: "distinct five_files" "length five_files \<le> 3 * length [200, 200 :: nat]"
    "length five_files = 5"
    by (simp_all add: five_files_def)
  have r: "reports unreadable_world five_files = replicate 5 (SendException (Error ''ENOENT''))"
    by (simp add: reports_def five_files_def validate_def unreadable_world_def example_world_def
        numeral_eq_Suc)
  from pl p np t v d show ?thesis
    using batch_runner [of three_flying "[(example_world, OnWorkplaceFilesInitialized five_files)]"
        0 "Inl (Error ''ENOENT'')" batch_started ?t unreadable_world "Error ''ENOENT''" example_world
        five_files "[200, 200]" example_world]
    unfolding batch_started_def [symmetric]
    by (simp add: r catch_sendException_def)
qed

section \<open>Lifecycle: properties\<close>

text \<open>\<^verbatim>\<open>onFileChanged\<close> is the calls on the children followed by one call of
  \<^verbatim>\<open>doValidation\<close>.\<close>

lemma onFileChanged_eq:
  "onFileChanged w u s =
     doValidation u
       (emit (GetChildrenUris u #
                (case getChildrenUris w u of
                   None \<Rightarrow> []
                 | Some children \<Rightarrow>
                     if children \<noteq> [] then map ClearPartialSchema children @ [ClearRelations u]
                     else [])) s)"
  by (simp add: onFileChanged_def Let_def emit_def clearPartialSchemas_def split: option.splits)

lemma validations_emit:
  "Validate u \<notin> set cs \<Longrightarrow> validations u (emit cs s) = validations u s"
  by (simp add: validations_def)

lemma quiet_emit: "quiet u (emit cs s) = quiet u s"
  by (simp add: quiet_def)

text \<open>
  Claim C2. On a file-changed event for a URI with recorded children the handler reads
  the children, clears the partial schema of each child in order, clears the relations of
  the URI, and then schedules one revalidation of the URI. For a URI with no recorded
  children (none, or an empty list) it reads the children and schedules the revalidation,
  and calls neither the schema service nor \<^verbatim>\<open>clearRelations\<close>. Scheduling is the state
  effect of \<^verbatim>\<open>doValidation\<close>: the pending request of the URI, if there is one, is
  cancelled, one timer of 200 ms is armed for a new promise and its handle is stored
  under the URI; nothing has settled and the pools are as before. In a reachable state
  that timer is then the only armed timer of the URI, and the timers of the other URIs
  are the same as before; when no batch runner has the URI ahead of its cursor, once
  200 ms or more have passed exactly one validation of the URI has run, and its result
  has settled the promise.
\<close>

theorem onFileChanged_order:
  "(getChildrenUris w u = Some children \<and> children \<noteq> [] \<longrightarrow>
      trace (snd (onFileChanged w u s)) =
        trace s @ [GetChildrenUris u] @ map ClearPartialSchema children @ [ClearRelations u]
          @ (case pendingValidationRequests s u of None \<Rightarrow> [] | Some h \<Rightarrow> [ClearTimeout h])
          @ [SetTimeout (next_handle s) u 200]) \<and>
   (getChildrenUris w u = None \<or> getChildrenUris w u = Some [] \<longrightarrow>
      trace (snd (onFileChanged w u s)) =
        trace s @ [GetChildrenUris u]
          @ (case pendingValidationRequests s u of None \<Rightarrow> [] | Some h \<Rightarrow> [ClearTimeout h])
          @ [SetTimeout (next_handle s) u 200]) \<and>
   fst (onFileChanged w u s) = next_promise s \<and>
   timers (snd (onFileChanged w u s)) =
     (case pendingValidationRequests s u of
        None \<Rightarrow> timers s
      | Some h \<Rightarrow> filter (\<lambda>t. handle t \<noteq> h) (timers s))
     @ [\<lparr>handle = next_handle s, due = now s + 200, t_uri = u, t_promise = next_promise s\<rparr>] \<and>
   pendingValidationRequests (snd (onFileChanged w u s)) =
     (pendingValidationRequests s)(u \<mapsto> next_handle s) \<and>
   next_handle (snd (onFileChanged w u s)) = next_handle s + 1 \<and>
   next_promise (snd (onFileChanged w u s)) = next_promise s + 1 \<and>
   settled (snd (onFileChanged w u s)) = settled s \<and>
   pools (snd (onFileChanged w u s)) = pools s \<and>
   now (snd (onFileChanged w u s)) = now s \<and>
   (s = run es init \<longrightarrow>
      filter (\<lambda>t. t_uri t = u) (timers (snd (onFileChanged w u s))) =
        [\<lparr>handle = next_handle s, due = now s + 200, t_uri = u, t_promise = next_promise s\<rparr>] \<and>
      filter (\<lambda>t. t_uri t \<noteq> u) (timers (snd (onFileChanged w u s))) =
        filter (\<lambda>t. t_uri t \<noteq> u) (timers s)) \<and>
   (s = run es init \<and> quiet u s \<and> 200 \<le> d \<longrightarrow>
      validations u (elapse w' d (snd (onFileChanged w u s))) = validations u s + 1 \<and>
      settled (elapse w' d (snd (onFileChanged w u s))) (fst (onFileChanged w u s)) =
        Some (fst (validate w' u)))"
proof -
  let ?cs = "GetChildrenUris u #
                (case getChildrenUris w u of
                   None \<Rightarrow> []
                 | Some children \<Rightarrow>
                     if children \<noteq> [] then map ClearPartialSchema children @ [ClearRelations u]
                     else [])"
  let ?t = "\<lparr>handle = next_handle s, due = now s + 200, t_uri = u, t_promise = next_promise s\<rparr>"
  note eq = onFileChanged_eq [of w u s]
  have no_validate: "Validate u \<notin> set ?cs"
    by (auto split: option.splits)
  have a: "getChildrenUris w u = Some children \<and> children \<noteq> [] \<longrightarrow>
      trace (snd (onFileChanged w u s)) =
        trace s @ [GetChildrenUris u] @ map ClearPartialSchema children @ [ClearRelations u]
          @ (case pendingValidationRequests s u of None \<Rightarrow> [] | Some h \<Rightarrow> [ClearTimeout h])
          @ [SetTimeout (next_handle s) u 200]"
    unfolding eq by (simp add: trace_doValidation)
  have b: "getChildrenUris w u = None \<or> getChildrenUris w u = Some [] \<longrightarrow>
      trace (snd (onFileChanged w u s)) =
        trace s @ [GetChildrenUris u]
          @ (case pendingValidationRequests s u of None \<Rightarrow> [] | Some h \<Rightarrow> [ClearTimeout h])
          @ [SetTimeout (next_handle s) u 200]"
    unfolding eq by (auto simp: trace_doValidation)
  have c: "fst (onFileChanged w u s) = next_promise s"
    unfolding eq by simp
  have t: "timers (snd (onFileChanged w u s)) =
     (case pendingValidationRequests s u of
        None \<Rightarrow> timers s
      | Some h \<Rightarrow> filter (\<lambda>t. handle t \<noteq> h) (timers s)) @ [?t]"
    unfolding eq
    by (simp add: timers_doValidation timers_clean VALIDATION_DELAY_MS_def split: option.splits)
  have p: "pendingValidationRequests (snd (onFileChanged w u s)) =
     (pendingValidationRequests s)(u \<mapsto> next_handle s)"
    unfolding eq by simp
  have f: "next_handle (snd (onFileChanged w u s)) = next_handle s + 1"
      "next_promise (snd (onFileChanged w u s)) = next_promise s + 1"
      "settled (snd (onFileChanged w u s)) = settled s"
      "pools (snd (onFileChanged w u s)) = pools s"
      "now (snd (onFileChanged w u s)) = now s"
    unfolding eq by simp_all
  have r: "filter (\<lambda>t. t_uri t = u) (timers (snd (onFileChanged w u s))) = [?t] \<and>
      filter (\<lambda>t. t_uri t \<noteq> u) (timers (snd (onFileChanged w u s))) =
        filter (\<lambda>t. t_uri t \<noteq> u) (timers s)"
    if s: "s = run es init"
  proof -
    have "sched_inv s"
      unfolding s using inv_reachable [of es] by (simp add: service_inv_def)
    then have "sched_inv (emit ?cs s)" by simp
    from timers_clean_inv [OF this, of u]
    show ?thesis
      unfolding eq by (simp add: timers_doValidation VALIDATION_DELAY_MS_def filter_empty_conv)
  qed
  have v: "validations u (elapse w' d (snd (onFileChanged w u s))) = validations u s + 1 \<and>
      settled (elapse w' d (snd (onFileChanged w u s))) (fst (onFileChanged w u s)) =
        Some (fst (validate w' u))"
    if s: "s = run es init" and q: "quiet u s" and d: "200 \<le> d"
  proof -
    have "sched_inv s"
      unfolding s using inv_reachable [of es] by (simp add: service_inv_def)
    then have "calm u (filter (\<lambda>t. t_uri t = u) (timers s)) (validations u s) (emit ?cs s)"
      using no_validate by (simp add: calm_def validations_emit)
    moreover have "quiet u (emit ?cs s)" using q by (simp add: quiet_emit)
    ultimately show ?thesis
      using debounce_second_window [of u _ "validations u s" "emit ?cs s" d w'] d
      unfolding eq by (simp add: VALIDATION_DELAY_MS_def)
  qed
  from a b c t p f r v show ?thesis by blast
qed

theorem onFileChanged_order_witness:
  "armed_once = run [(example_world, DoValidation ''a.yaml'')] init \<and>
   quiet ''a.yaml'' armed_once \<and> (200::nat) \<le> 200 \<and>
   getChildrenUris (example_world\<lparr>getChildrenUris := (\<lambda>u. Some [''c1.yaml'', ''c2.yaml''])\<rparr>)
     ''a.yaml'' = Some [''c1.yaml'', ''c2.yaml''] \<and>
   trace (snd (onFileChanged
       (example_world\<lparr>getChildrenUris := (\<lambda>u. Some [''c1.yaml'', ''c2.yaml''])\<rparr>)
       ''a.yaml'' armed_once)) =
     [SetTimeout 0 ''a.yaml'' 200, GetChildrenUris ''a.yaml'', ClearPartialSchema ''c1.yaml'',
      ClearPartialSchema ''c2.yaml'', ClearRelations ''a.yaml'', ClearTimeout 0,
      SetTimeout 1 ''a.yaml'' 200] \<and>
   timers (snd (onFileChanged
       (example_world\<lparr>getChildrenUris := (\<lambda>u. Some [''c1.yaml'', ''c2.yaml''])\<rparr>)
       ''a.yaml'' armed_once)) =
     [\<lparr>handle = 1, due = 200, t_uri = ''a.yaml'', t_promise = 1\<rparr>] \<and>
   validations ''a.yaml'' armed_once = 0 \<and>
   validations ''a.yaml'' (elapse example_world 200 (snd (onFileChanged
       (example_world\<lparr>getChildrenUris := (\<lambda>u. Some [''c1.yaml'', ''c2.yaml''])\<rparr>)
       ''a.yaml'' armed_once))) = 1 \<and>
   settled (elapse example_world 200 (snd (onFileChanged
       (example_world\<lparr>getChildrenUris := (\<lambda>u. Some [''c1.yaml'', ''c2.yaml''])\<rparr>)
       ''a.yaml'' armed_once))) 1 = Some (Inr ()) \<and>
   getChildrenUris example_world ''q.yaml'' = None \<and>
   trace (snd (onFileChanged example_world ''q.yaml'' init)) =
     [GetChildrenUris ''q.yaml'', SetTimeout 0 ''q.yaml'' 200] \<and>
   timers (snd (onFileChanged example_world ''q.yaml'' init)) =
     [\<lparr>handle = 0, due = 200, t_uri = ''q.yaml'', t_promise = 0\<rparr>]"
proof -
  let ?w = "example_world\<lparr>getChildrenUris := (\<lambda>u. Some [''c1.yaml'', ''c2.yaml''])\<rparr>"
  have n: "getChildrenUris example_world ''q.yaml'' = None"
    by (simp add: example_world_def)
  have m: "trace (snd (onFileChanged example_world ''q.yaml'' init)) =
       [GetChildrenUris ''q.yaml'', SetTimeout 0 ''q.yaml'' 200]"
    "timers (snd (onFileChanged example_world ''q.yaml'' init)) =
       [\<lparr>handle = 0, due = 200, t_uri = ''q.yaml'', t_promise = 0\<rparr>]"
    using onFileChanged_order [of example_world "''q.yaml''" "[]" init "[]" 200 example_world] n
    by (simp_all add: init_def)
  have r: "armed_once = run [(example_world, DoValidation ''a.yaml'')] init"
    by (simp add: armed_once_def)
  have q: "quiet ''a.yaml'' armed_once" "validations ''a.yaml'' armed_once = 0"
    by (simp_all add: quiet_def validations_def armed_once_eq init_def)
  have c: "getChildrenUris ?w ''a.yaml'' = Some [''c1.yaml'', ''c2.yaml'']"
    by simp
  have f: "next_handle armed_once = 1" "next_promise armed_once = 1" "now armed_once = 0"
      "pendingValidationRequests armed_once ''a.yaml'' = Some 0"
      "trace armed_once = [SetTimeout 0 ''a.yaml'' 200]" "timers armed_once = [timer0]"
    by (simp_all add: armed_once_eq init_def)
  have vr: "fst (validate example_world ''a.yaml'') = Inr ()"
    by (simp add: validate_def example_world_def)
  have p: "fst (onFileChanged ?w ''a.yaml'' armed_once) = 1"
    by (simp add: onFileChanged_eq f)
  from r q c n m show ?thesis
    using onFileChanged_order [of ?w "''a.yaml''" "[''c1.yaml'', ''c2.yaml'']" armed_once
        "[(example_world, DoValidation ''a.yaml'')]" 200 example_world]
    by (simp add: f vr timer0_def p)
qed

end
